theory Spec2Isabelle
  imports Complex_Main "HOL-Library.Finite_Map" "HOL-Library.List_Lexorder" "HOL-Library.Char_ord"
begin

section \<open>Data model of BrainGraph (Graph.cxx)\<close>

text \<open>
  The header \<^verbatim>\<open>Graph.h\<close> is not part of the sources; the classes it declares are
  modelled from the way \<^verbatim>\<open>Graph.cxx\<close> uses them and from the specification:
  \<^item> \<^verbatim>\<open>Property\<close> is a vector of \<^verbatim>\<open>property_type\<close> elements (\<^verbatim>\<open>values\<close>, \<^verbatim>\<open>dim()\<close>);
    it is the list of its elements here, \<^verbatim>\<open>dim()\<close> is \<open>length\<close>;
  \<^item> \<^verbatim>\<open>Node\<close> has an id and a \<^verbatim>\<open>std::map<std::string, Property>\<close>; the map is a finite
    map, iterated in ascending key order;
  \<^item> \<^verbatim>\<open>Edge\<close> has a target \<^verbatim>\<open>node\<close> and a \<^verbatim>\<open>weight\<close>;
  \<^item> \<^verbatim>\<open>Graph\<close> holds the vector \<^verbatim>\<open>nodes_\<close> and one edge vector per node.
  The element type of properties and the weight type are type parameters: the codec
  treats them as opaque, the scorer and the matrix projection compute with them, and
  there \<^verbatim>\<open>double\<close> is idealised by \<open>real\<close> (no rounding, no NaN, no infinities).
\<close>

type_synonym 'p Property = "'p list"

record 'p Node =
  Node_id :: nat
  properties :: "(string, 'p Property) fmap"

record 'w Edge =
  Edge_node :: nat
  Edge_weight :: 'w

record ('p, 'w) Graph =
  nodes :: "'p Node list"
  edges :: "'w Edge list list"

text \<open>An entry of a path: \<^verbatim>\<open>d_node.id\<close> and \<^verbatim>\<open>d_node.weight\<close>.\<close>

record DecoratedNode =
  dn_id :: nat
  dn_weight :: real

datatype error =
    IOError            \<comment> \<open>\<^verbatim>\<open>runtime_error("file is not good")\<close>\<close>
  | ParseError         \<comment> \<open>\<^verbatim>\<open>std::stoul\<close> throws \<^verbatim>\<open>invalid_argument\<close> or \<^verbatim>\<open>out_of_range\<close>\<close>
  | SchemaError        \<comment> \<open>one of the three width checks of \<^verbatim>\<open>load_binary\<close>\<close>
  | OutOfRange         \<comment> \<open>a checked access outside a container\<close>
  | Undefined          \<comment> \<open>the C++ has undefined behaviour (unchecked access, uninitialised read)\<close>

text \<open>\<^verbatim>\<open>Property(v)\<close>: a scalar property.\<close>

definition Property1 :: "'p \<Rightarrow> 'p Property" where
  "Property1 v = [v]"

definition no_of_nodes :: "('p, 'w) Graph \<Rightarrow> nat" where
  "no_of_nodes g = length (nodes g)"

section \<open>The node-importance scorer\<close>

text \<open>
  \<^verbatim>\<open>m[k]\<close> on a \<^verbatim>\<open>std::map\<close> returns the entry of \<open>k\<close> and creates it, default-constructed,
  when it is absent. The default-constructed \<^verbatim>\<open>Property\<close> is declared in \<^verbatim>\<open>Graph.h\<close>;
  it is the parameter \<open>dflt\<close> of every function below.
\<close>

definition map_index :: "'p Property \<Rightarrow> string \<Rightarrow> (string, 'p Property) fmap
    \<Rightarrow> 'p Property \<times> (string, 'p Property) fmap" where
  "map_index dflt k m =
     (case fmlookup m k of Some p \<Rightarrow> (p, m) | None \<Rightarrow> (dflt, fmupd k dflt m))"

definition set_properties :: "nat \<Rightarrow> (string, 'p Property) fmap \<Rightarrow> ('p, 'w) Graph \<Rightarrow> ('p, 'w) Graph" where
  "set_properties i m g = g\<lparr>nodes := (nodes g)[i := (nodes g ! i)\<lparr>properties := m\<rparr>]\<rparr>"

text \<open>
  \<^verbatim>\<open>this->node(i).properties[k][0]\<close> as a read. Modelled from the spec: \<^verbatim>\<open>Graph::node\<close> and
  \<^verbatim>\<open>Property::operator[]\<close> are declared in \<^verbatim>\<open>Graph.h\<close>; by the specification both fail with an
  out-of-range error outside their bounds. The map entry is created before the element is
  read, so the graph is returned in both cases.
\<close>

definition read_elem0 :: "real Property \<Rightarrow> nat \<Rightarrow> string \<Rightarrow> (real, 'w) Graph
    \<Rightarrow> (error + real) \<times> (real, 'w) Graph" where
  "read_elem0 dflt i k g =
     (if i < length (nodes g) then
        (case map_index dflt k (properties (nodes g ! i)) of
           (p, m) \<Rightarrow>
             (case p of
                [] \<Rightarrow> (Inl OutOfRange, set_properties i m g)
              | v # vs \<Rightarrow> (Inr v, set_properties i m g)))
      else (Inl OutOfRange, g))"

text \<open>\<^verbatim>\<open>this->node(i).properties[k][0] += x\<close>.\<close>

definition add_elem0 :: "real Property \<Rightarrow> nat \<Rightarrow> string \<Rightarrow> real \<Rightarrow> (real, 'w) Graph
    \<Rightarrow> error option \<times> (real, 'w) Graph" where
  "add_elem0 dflt i k x g =
     (if i < length (nodes g) then
        (case map_index dflt k (properties (nodes g ! i)) of
           (p, m) \<Rightarrow>
             (case p of
                [] \<Rightarrow> (Some OutOfRange, set_properties i m g)
              | v # vs \<Rightarrow> (None, set_properties i (fmupd k ((v + x) # vs) m) g)))
      else (Some OutOfRange, g))"

text \<open>The first loop: \<^verbatim>\<open>properties[count] = Property(0); properties[confidence] = Property(0)\<close>.\<close>

definition reset_node :: "string \<Rightarrow> string \<Rightarrow> real Node \<Rightarrow> real Node" where
  "reset_node count confidence n =
     n\<lparr>properties := fmupd confidence (Property1 0) (fmupd count (Property1 0) (properties n))\<rparr>"

definition reset_all :: "string \<Rightarrow> string \<Rightarrow> (real, 'w) Graph \<Rightarrow> (real, 'w) Graph" where
  "reset_all count confidence g = g\<lparr>nodes := map (reset_node count confidence) (nodes g)\<rparr>"

text \<open>The innermost loop \<^verbatim>\<open>for (auto d_node : path)\<close>; it stops at the first exception.\<close>

fun visit_path :: "real Property \<Rightarrow> string \<Rightarrow> string \<Rightarrow> real \<Rightarrow> DecoratedNode list
    \<Rightarrow> (real, 'w) Graph \<Rightarrow> error option \<times> (real, 'w) Graph" where
  "visit_path dflt count confidence score [] g = (None, g)"
| "visit_path dflt count confidence score (d # ds) g =
     (case add_elem0 dflt (dn_id d) count 1 g of
        (Some e, g1) \<Rightarrow> (Some e, g1)
      | (None, g1) \<Rightarrow>
          (case add_elem0 dflt (dn_id d) confidence score g1 of
             (Some e, g2) \<Rightarrow> (Some e, g2)
           | (None, g2) \<Rightarrow> visit_path dflt count confidence score ds g2))"

text \<open>
  The body of \<^verbatim>\<open>for (auto path : r2r)\<close>. \<^verbatim>\<open>path.size() - 1.\<close> is computed in \<^verbatim>\<open>double\<close>, so an
  empty path has length \<open>-1\<close>.
\<close>

definition score_path :: "real Property \<Rightarrow> string \<Rightarrow> string \<Rightarrow> string \<Rightarrow> DecoratedNode list
    \<Rightarrow> (real, 'w) Graph \<Rightarrow> error option \<times> (real, 'w) Graph" where
  "score_path dflt prior count confidence path g =
     (let len = real (length path) - 1 in
      if len > 0 then
        (case read_elem0 dflt (dn_id (hd path)) prior g of
           (Inl e, g1) \<Rightarrow> (Some e, g1)
         | (Inr p0, g1) \<Rightarrow>
             (case read_elem0 dflt (dn_id (last path)) prior g1 of
                (Inl e, g2) \<Rightarrow> (Some e, g2)
              | (Inr pn, g2) \<Rightarrow>
                  (let node_0_weight = ln (sqrt p0);
                       node_n_weight = ln (sqrt pn);
                       distance = dn_weight (last path) - node_0_weight - node_n_weight;
                       score = exp (- (distance / len))
                   in visit_path dflt count confidence score path g2)))
      else (None, g))"

fun score_paths :: "real Property \<Rightarrow> string \<Rightarrow> string \<Rightarrow> string \<Rightarrow> DecoratedNode list list
    \<Rightarrow> (real, 'w) Graph \<Rightarrow> error option \<times> (real, 'w) Graph" where
  "score_paths dflt prior count confidence [] g = (None, g)"
| "score_paths dflt prior count confidence (path # r2r) g =
     (case score_path dflt prior count confidence path g of
        (Some e, g1) \<Rightarrow> (Some e, g1)
      | (None, g1) \<Rightarrow> score_paths dflt prior count confidence r2r g1)"

text \<open>
  \<^verbatim>\<open>Graph::calculate_node_importance(r2r, prior, count, confidence)\<close>. The result is the
  exception thrown, if any, and the graph as the call leaves it: the method mutates the
  graph in place and undoes nothing when it throws.
\<close>

definition calculate_node_importance :: "real Property \<Rightarrow> DecoratedNode list list \<Rightarrow> string \<Rightarrow> string
    \<Rightarrow> string \<Rightarrow> (real, 'w) Graph \<Rightarrow> error option \<times> (real, 'w) Graph" where
  "calculate_node_importance dflt r2r prior count confidence g =
     score_paths dflt prior count confidence r2r (reset_all count confidence g)"

text \<open>The value of \<^verbatim>\<open>g.node(i).properties.at(k)\<close>, when there is one.\<close>

definition prop_at :: "('p, 'w) Graph \<Rightarrow> nat \<Rightarrow> string \<Rightarrow> 'p Property option" where
  "prop_at g i k = (if i < length (nodes g) then fmlookup (properties (nodes g ! i)) k else None)"

section \<open>Auxiliary notions for the scorer\<close>

definition endpoints :: "DecoratedNode list list \<Rightarrow> nat set" where
  "endpoints r2r = (\<Union>path \<in> {p \<in> set r2r. 2 \<le> length p}. {dn_id (hd path), dn_id (last path)})"

definition visited :: "DecoratedNode list list \<Rightarrow> nat set" where
  "visited r2r = (\<Union>path \<in> {p \<in> set r2r. 2 \<le> length p}. dn_id ` set path)"

definition frame :: "nat set \<Rightarrow> real Property \<Rightarrow> string \<Rightarrow> string \<Rightarrow> string \<Rightarrow> (real, 'w) Graph \<Rightarrow> (real, 'w) Graph \<Rightarrow> bool" where
  "frame S dflt prior count confidence a b \<longleftrightarrow>
     length (nodes b) = length (nodes a) \<and> edges b = edges a \<and>
     (\<forall>i < length (nodes a).
        Node_id (nodes b ! i) = Node_id (nodes a ! i) \<and>
        (\<forall>k. k \<noteq> count \<longrightarrow> k \<noteq> confidence \<longrightarrow>
           fmlookup (properties (nodes b ! i)) k = fmlookup (properties (nodes a ! i)) k \<or>
           (k = prior \<and> i \<in> S \<and> fmlookup (properties (nodes a ! i)) k = None \<and>
            fmlookup (properties (nodes b ! i)) k = Some dflt)))"

definition scalars :: "string \<Rightarrow> string \<Rightarrow> (real, 'w) Graph \<Rightarrow> bool" where
  "scalars count confidence g \<longleftrightarrow>
     (\<forall>i < length (nodes g).
        (\<exists>c. fmlookup (properties (nodes g ! i)) count = Some [c]) \<and>
        (\<exists>c. fmlookup (properties (nodes g ! i)) confidence = Some [c]))"

definition S1_graph :: "(real, real) Graph" where
  "S1_graph =
     \<lparr>nodes = [\<lparr>Node_id = 0, properties = fmupd ''prior'' [exp 2] fmempty\<rparr>,
               \<lparr>Node_id = 1, properties = fmupd ''prior'' [exp 2] fmempty\<rparr>],
      edges = [[\<lparr>Edge_node = 1, Edge_weight = 2\<rparr>], []]\<rparr>"

text \<open>A graph of one node that has no property at all.\<close>

definition bare_graph :: "(real, real) Graph" where
  "bare_graph = \<lparr>nodes = [\<lparr>Node_id = 0, properties = fmempty\<rparr>], edges = [[]]\<rparr>"

text \<open>The path of scenario S1 and a path along a loop edge of node 0.\<close>

definition S1_path :: "DecoratedNode list" where
  "S1_path = [\<lparr>dn_id = 0, dn_weight = 0\<rparr>, \<lparr>dn_id = 1, dn_weight = 2\<rparr>]"

definition loop_path :: "DecoratedNode list" where
  "loop_path = [\<lparr>dn_id = 0, dn_weight = 0\<rparr>, \<lparr>dn_id = 0, dn_weight = 1\<rparr>]"

text \<open>
  Proof devices for the repeated run: \<open>ensure_prior\<close> is the effect of \<^verbatim>\<open>properties[prior]\<close> on the
  map of node \<open>i\<close>, \<open>cur\<close> the property that \<^verbatim>\<open>properties[k]\<close> designates, and \<open>installed\<close> says
  that a state reached by a run differs from its start by such entries, \<open>count\<close> and \<open>confidence\<close>
  apart.
\<close>

definition ensure_prior :: "real Property \<Rightarrow> string \<Rightarrow> nat \<Rightarrow> (real, 'w) Graph \<Rightarrow> (real, 'w) Graph" where
  "ensure_prior dflt prior i g =
     (if i < length (nodes g) \<and> fmlookup (properties (nodes g ! i)) prior = None
      then set_properties i (fmupd prior dflt (properties (nodes g ! i))) g else g)"

definition cur :: "real Property \<Rightarrow> (real, 'w) Graph \<Rightarrow> nat \<Rightarrow> string \<Rightarrow> real Property" where
  "cur dflt g j k = (case fmlookup (properties (nodes g ! j)) k of None \<Rightarrow> dflt | Some p \<Rightarrow> p)"

definition installed :: "real Property \<Rightarrow> string \<Rightarrow> string \<Rightarrow> string \<Rightarrow> (real, 'w) Graph \<Rightarrow> (real, 'w) Graph \<Rightarrow> bool" where
  "installed dflt prior count confidence a x \<longleftrightarrow>
     (\<exists>I. reset_all count confidence x = fold (ensure_prior dflt prior) I a \<and>
          (\<forall>i \<in> set I. i < length (nodes x) \<longrightarrow> fmlookup (properties (nodes x ! i)) prior \<noteq> None))"

text \<open>
  The graph a call is compared with to see that it does not depend on the former \<open>count\<close> and
  \<open>confidence\<close> entries: the same graph without them.
\<close>

definition strip_node :: "string \<Rightarrow> string \<Rightarrow> real Node \<Rightarrow> real Node" where
  "strip_node count confidence n = n\<lparr>properties := fmdrop confidence (fmdrop count (properties n))\<rparr>"

definition strip_all :: "string \<Rightarrow> string \<Rightarrow> (real, 'w) Graph \<Rightarrow> (real, 'w) Graph" where
  "strip_all count confidence g = g\<lparr>nodes := map (strip_node count confidence) (nodes g)\<rparr>"

text \<open>Node \<open>j\<close> exists and has an entry for \<open>prior\<close>.\<close>

definition has_prior :: "string \<Rightarrow> nat \<Rightarrow> (real, 'w) Graph \<Rightarrow> bool" where
  "has_prior prior j g \<longleftrightarrow> j < length (nodes g) \<and> fmlookup (properties (nodes g ! j)) prior \<noteq> None"

text \<open>
  The graph of scenario S1 with a stale \<open>count\<close> of dimension 3 on node 0 and no property at all
  on node 1.
\<close>

definition stale_graph :: "(real, real) Graph" where
  "stale_graph =
     \<lparr>nodes = [\<lparr>Node_id = 0, properties = fmupd ''count'' [7, 8, 9] (fmupd ''prior'' [exp 2] fmempty)\<rparr>,
               \<lparr>Node_id = 1, properties = fmempty\<rparr>],
      edges = [[\<lparr>Edge_node = 1, Edge_weight = 2\<rparr>], []]\<rparr>"


section \<open>The implementation's types\<close>

text \<open>
  \<^verbatim>\<open>id_type\<close>, \<^verbatim>\<open>property_type\<close> and \<^verbatim>\<open>weight_type\<close> are declared in \<^verbatim>\<open>Graph.h\<close>, which is not
  part of the sources, and \<^verbatim>\<open>std::size_t\<close> (taken to be \<^verbatim>\<open>unsigned long\<close>), \<^verbatim>\<open>unsigned int\<close> and
  the layout of \<^verbatim>\<open>struct EdgeInfo\<close> are the compiler's. Their sizes in bytes are parameters of
  the model. \<^verbatim>\<open>id_type\<close> is taken to be an unsigned integer type (the
  specification calls the id a non-negative integer), so its arithmetic wraps around at
  \<open>2 ^ (8 * sizeof_id_type)\<close>.
\<close>

record impl =
  sizeof_id_type :: nat
  sizeof_property_type :: nat
  sizeof_weight_type :: nat
  sizeof_size_t :: nat
  sizeof_unsigned :: nat
  sizeof_EdgeInfo :: nat

definition id_type_wrap :: "impl \<Rightarrow> nat \<Rightarrow> nat" where
  "id_type_wrap im n = n mod 2 ^ (8 * sizeof_id_type im)"

text \<open>
  The conversion of a \<^verbatim>\<open>double\<close> to \<^verbatim>\<open>std::size_t\<close>: the value is truncated towards zero, and
  the behaviour is undefined when the truncated value is not a \<^verbatim>\<open>std::size_t\<close>.
\<close>

definition to_size_t :: "impl \<Rightarrow> real \<Rightarrow> error + nat" where
  "to_size_t im r =
     (let t = (if 0 \<le> r then \<lfloor>r\<rfloor> else \<lceil>r\<rceil>) in
      if 0 \<le> t \<and> t < 2 ^ (8 * sizeof_size_t im) then Inr (nat t) else Inl Undefined)"

section \<open>The matrix projection\<close>

text \<open>
  \<^verbatim>\<open>p[i]\<close> on a \<^verbatim>\<open>Property\<close>. Modelled from the spec: \<^verbatim>\<open>Property::operator[]\<close> is declared in
  \<^verbatim>\<open>Graph.h\<close>; by the specification an access outside \<open>[0, dim)\<close> fails with an out-of-range
  error.
\<close>

definition Property_at :: "'p Property \<Rightarrow> nat \<Rightarrow> error + 'p" where
  "Property_at p i = (if i < length p then Inr (p ! i) else Inl OutOfRange)"

text \<open>
  \<^verbatim>\<open>pos[2] + pos[1] * slices + pos[0] * columns * slices\<close>, computed in \<^verbatim>\<open>double\<close>: the integer
  operands are converted.
\<close>

definition flat_index :: "real Property \<Rightarrow> nat \<Rightarrow> nat \<Rightarrow> error + real" where
  "flat_index pos columns slices =
     (case Property_at pos 2 of Inl e \<Rightarrow> Inl e | Inr p2 \<Rightarrow>
      case Property_at pos 1 of Inl e \<Rightarrow> Inl e | Inr p1 \<Rightarrow>
      case Property_at pos 0 of Inl e \<Rightarrow> Inl e | Inr p0 \<Rightarrow>
        Inr (p2 + p1 * real slices + p0 * real columns * real slices))"

text \<open>
  The body of the loop of \<^verbatim>\<open>as_matrix\<close> for one node: \<^verbatim>\<open>properties.at(pos_key)\<close>, then the
  right-hand side \<^verbatim>\<open>properties.at(weight_key)[0]\<close>, then the index and \<^verbatim>\<open>weights.at(...)\<close>.
  \<^verbatim>\<open>std::map::at\<close> and \<^verbatim>\<open>std::vector::at\<close> throw \<^verbatim>\<open>std::out_of_range\<close>.
\<close>

definition as_matrix_step :: "impl \<Rightarrow> nat \<Rightarrow> nat \<Rightarrow> string \<Rightarrow> string \<Rightarrow> real Node
    \<Rightarrow> real list \<Rightarrow> error + real list" where
  "as_matrix_step im columns slices weight_key pos_key n weights =
     (case fmlookup (properties n) pos_key of
        None \<Rightarrow> Inl OutOfRange
      | Some pos \<Rightarrow>
          (case fmlookup (properties n) weight_key of
             None \<Rightarrow> Inl OutOfRange
           | Some wp \<Rightarrow>
               (case Property_at wp 0 of
                  Inl e \<Rightarrow> Inl e
                | Inr w \<Rightarrow>
                    (case flat_index pos columns slices of
                       Inl e \<Rightarrow> Inl e
                     | Inr r \<Rightarrow>
                         (case to_size_t im r of
                            Inl e \<Rightarrow> Inl e
                          | Inr ix \<Rightarrow>
                              if ix < length weights then Inr (weights[ix := w])
                              else Inl OutOfRange)))))"

text \<open>The loop \<^verbatim>\<open>for (id_type i = 0; i < no_of_nodes(); ++i)\<close> visits the nodes in order.\<close>

fun as_matrix_loop :: "impl \<Rightarrow> nat \<Rightarrow> nat \<Rightarrow> string \<Rightarrow> string \<Rightarrow> real Node list
    \<Rightarrow> real list \<Rightarrow> error + real list" where
  "as_matrix_loop im columns slices weight_key pos_key [] weights = Inr weights"
| "as_matrix_loop im columns slices weight_key pos_key (n # ns) weights =
     (case as_matrix_step im columns slices weight_key pos_key n weights of
        Inl e \<Rightarrow> Inl e
      | Inr weights' \<Rightarrow> as_matrix_loop im columns slices weight_key pos_key ns weights')"

text \<open>
  \<^verbatim>\<open>Graph::as_matrix(rows, columns, slices, weight_key, pos_key)\<close>. The size of the vector is
  the product computed in \<^verbatim>\<open>id_type\<close>.
\<close>

definition as_matrix :: "impl \<Rightarrow> nat \<Rightarrow> nat \<Rightarrow> nat \<Rightarrow> string \<Rightarrow> string \<Rightarrow> (real, 'w) Graph
    \<Rightarrow> error + real list" where
  "as_matrix im rows columns slices weight_key pos_key g =
     as_matrix_loop im columns slices weight_key pos_key (nodes g)
       (replicate (id_type_wrap im (rows * columns * slices)) 0)"

text \<open>
  The position and the weight that the projection reads on a node, and the cell of the
  matrix that the node is written to.
\<close>

definition has_pos :: "string \<Rightarrow> real Node \<Rightarrow> nat \<Rightarrow> nat \<Rightarrow> nat \<Rightarrow> bool" where
  "has_pos pos_key n x y z \<longleftrightarrow>
     (\<exists>rest. fmlookup (properties n) pos_key = Some (real x # real y # real z # rest))"

definition has_weight :: "string \<Rightarrow> real Node \<Rightarrow> real \<Rightarrow> bool" where
  "has_weight weight_key n w \<longleftrightarrow> (\<exists>rest. fmlookup (properties n) weight_key = Some (w # rest))"

definition cell :: "nat \<Rightarrow> nat \<Rightarrow> string \<Rightarrow> real Node \<Rightarrow> nat" where
  "cell columns slices pos_key n =
     (case fmlookup (properties n) pos_key of
        Some (x # y # z # rest) \<Rightarrow> nat \<lfloor>z + y * real slices + x * real columns * real slices\<rfloor>
      | _ \<Rightarrow> 0)"

text \<open>Invariant I5 of the specification, for the given dimensions and keys.\<close>

definition I5 :: "nat \<Rightarrow> nat \<Rightarrow> nat \<Rightarrow> string \<Rightarrow> string \<Rightarrow> (real, 'w) Graph \<Rightarrow> bool" where
  "I5 rows columns slices weight_key pos_key g \<longleftrightarrow>
     (\<forall>n \<in> set (nodes g).
        (\<exists>x y z. has_pos pos_key n x y z \<and> x < rows \<and> y < columns \<and> z < slices) \<and>
        (\<exists>w. has_weight weight_key n w))"

text \<open>The graph of scenario S3 of the specification.\<close>

definition S3_graph :: "(real, real) Graph" where
  "S3_graph =
     \<lparr>nodes = [\<lparr>Node_id = 0, properties = fmupd ''pos'' [0, 0, 0] (fmupd ''weight'' [0.5] fmempty)\<rparr>,
               \<lparr>Node_id = 1, properties = fmupd ''pos'' [1, 1, 1] (fmupd ''weight'' [1.5] fmempty)\<rparr>,
               \<lparr>Node_id = 2, properties = fmupd ''pos'' [0, 1, 0] (fmupd ''weight'' [2.5] fmempty)\<rparr>],
      edges = [[], [], []]\<rparr>"

definition lp64 :: impl where
  "lp64 = \<lparr>sizeof_id_type = 8, sizeof_property_type = 8, sizeof_weight_type = 8, sizeof_size_t = 8,
            sizeof_unsigned = 4, sizeof_EdgeInfo = 24\<rparr>"

text \<open>A graph of one node at position \<open>(0, 0, 0)\<close>.\<close>

definition origin_graph :: "(real, real) Graph" where
  "origin_graph =
     \<lparr>nodes = [\<lparr>Node_id = 0, properties = fmupd ''pos'' [0, 0, 0] (fmupd ''weight'' [0.5] fmempty)\<rparr>],
      edges = [[]]\<rparr>"

section \<open>Input streams\<close>

text \<open>
  A \<^verbatim>\<open>std::ifstream\<close>: the characters not yet read and the state bits. The file is read
  as it is (no translation of line ends).
\<close>

record istream =
  rest :: "char list"
  eofbit :: bool
  failbit :: bool

definition good :: "istream \<Rightarrow> bool" where
  "good s \<longleftrightarrow> \<not> eofbit s \<and> \<not> failbit s"

definition open_stream :: "char list \<Rightarrow> istream" where
  "open_stream contents = \<lparr>rest = contents, eofbit = False, failbit = False\<rparr>"

abbreviation NL :: char where
  "NL \<equiv> CHR 0x0A"

text \<open>
  \<^verbatim>\<open>std::getline(file, line)\<close>. On a stream that is not good the sentry sets \<^verbatim>\<open>failbit\<close> and
  the string keeps its value. Otherwise the string is erased and characters are extracted
  up to and including the next newline, which is not stored; when the end of the file
  comes first, \<^verbatim>\<open>eofbit\<close> is set, and \<^verbatim>\<open>failbit\<close> too when nothing was extracted.
\<close>

definition getline :: "istream \<Rightarrow> string \<Rightarrow> istream \<times> string" where
  "getline s line =
     (if \<not> good s then (s\<lparr>failbit := True\<rparr>, line)
      else if NL \<in> set (rest s) then
        (s\<lparr>rest := tl (dropWhile (\<lambda>c. c \<noteq> NL) (rest s))\<rparr>, takeWhile (\<lambda>c. c \<noteq> NL) (rest s))
      else (s\<lparr>rest := [], eofbit := True, failbit := (rest s = [])\<rparr>, rest s))"

text \<open>
  \<^verbatim>\<open>stream.read(buf, n)\<close>: the stream after the call and the characters stored at the start
  of the buffer. A short read sets \<^verbatim>\<open>eofbit\<close> and \<^verbatim>\<open>failbit\<close>.
\<close>

definition stream_read :: "istream \<Rightarrow> nat \<Rightarrow> istream \<times> char list" where
  "stream_read s n =
     (if \<not> good s then (s\<lparr>failbit := True\<rparr>, [])
      else if n \<le> length (rest s) then (s\<lparr>rest := drop n (rest s)\<rparr>, take n (rest s))
      else (s\<lparr>rest := [], eofbit := True, failbit := True\<rparr>, rest s))"

section \<open>Strings and numbers\<close>

text \<open>
  \<^verbatim>\<open>StringFunctions.h\<close> is not part of the sources: \<^verbatim>\<open>split(s, c)\<close>, \<^verbatim>\<open>trim(s)\<close> and
  \<^verbatim>\<open>trim(s, chars)\<close> are parameters of the reader.
\<close>

record StringFunctions =
  split :: "string \<Rightarrow> char \<Rightarrow> string list"
  trim :: "string \<Rightarrow> string"
  trim_chars :: "string \<Rightarrow> string \<Rightarrow> string"

definition isspace :: "char \<Rightarrow> bool" where
  "isspace c \<longleftrightarrow> c \<in> {CHR '' '', CHR 0x09, CHR 0x0A, CHR 0x0B, CHR 0x0C, CHR 0x0D}"

definition isdigit :: "char \<Rightarrow> bool" where
  "isdigit c \<longleftrightarrow> 48 \<le> (of_char c :: nat) \<and> (of_char c :: nat) \<le> 57"

definition digit_val :: "char \<Rightarrow> nat" where
  "digit_val c = of_char c - 48"

fun dec_val :: "nat \<Rightarrow> string \<Rightarrow> nat" where
  "dec_val acc [] = acc"
| "dec_val acc (c # cs) = dec_val (10 * acc + digit_val c) cs"

text \<open>
  \<^verbatim>\<open>std::stoul(s)\<close>, base 10, as \<^verbatim>\<open>strtoul\<close> does it: white space is skipped, a sign is
  accepted, the digits that follow are converted and the rest is ignored. No digit is
  \<^verbatim>\<open>std::invalid_argument\<close>, a value above \<^verbatim>\<open>ULONG_MAX\<close> is \<^verbatim>\<open>std::out_of_range\<close>; a minus sign
  negates the value in \<^verbatim>\<open>unsigned long\<close>.
\<close>

definition stoul :: "impl \<Rightarrow> string \<Rightarrow> error + nat" where
  "stoul im s =
     (let s1 = dropWhile isspace s;
          neg = (s1 \<noteq> [] \<and> hd s1 = CHR ''-'');
          s2 = (if s1 \<noteq> [] \<and> (hd s1 = CHR ''-'' \<or> hd s1 = CHR ''+'') then tl s1 else s1);
          ds = takeWhile isdigit s2;
          v = dec_val 0 ds
      in if ds = [] then Inl ParseError
         else if 2 ^ (8 * sizeof_size_t im) \<le> v then Inl ParseError
         else Inr (if neg then (2 ^ (8 * sizeof_size_t im) - v) mod 2 ^ (8 * sizeof_size_t im) else v))"

text \<open>\<^verbatim>\<open>out << n\<close> for an unsigned integer: its decimal digits.\<close>

fun decimal :: "nat \<Rightarrow> string" where
  "decimal n = (if n < 10 then [char_of (48 + n)] else decimal (n div 10) @ [char_of (48 + n mod 10)])"

declare decimal.simps [simp del]

text \<open>\<^verbatim>\<open>s.find_first_of(c)\<close> and \<^verbatim>\<open>s.find_last_of(c)\<close>; \<open>None\<close> is \<^verbatim>\<open>npos\<close>.\<close>

fun find_first_of :: "string \<Rightarrow> char \<Rightarrow> nat option" where
  "find_first_of [] c = None"
| "find_first_of (x # xs) c =
     (if x = c then Some 0 else map_option Suc (find_first_of xs c))"

definition find_last_of :: "string \<Rightarrow> char \<Rightarrow> nat option" where
  "find_last_of s c =
     (case find_first_of (rev s) c of None \<Rightarrow> None | Some i \<Rightarrow> Some (length s - 1 - i))"

section \<open>The header\<close>

text \<open>
  \<^verbatim>\<open>struct Header\<close>. \<^verbatim>\<open>Header header;\<close> leaves the integer members uninitialised: \<open>None\<close> is
  an indeterminate value, and reading it is undefined behaviour.
\<close>

record Header =
  node_count :: "nat option"
  edge_count :: "nat option"
  node_id_bytes :: "nat option"
  property_element_bytes :: "nat option"
  total_property_elements :: "nat option"
  edge_weight_bytes :: "nat option"
  Header_properties :: "(string \<times> nat) list"

definition Header_uninit :: Header where
  "Header_uninit =
     \<lparr>node_count = None, edge_count = None, node_id_bytes = None, property_element_bytes = None,
      total_property_elements = None, edge_weight_bytes = None, Header_properties = []\<rparr>"

definition unsigned_wrap :: "impl \<Rightarrow> nat \<Rightarrow> nat" where
  "unsigned_wrap im n = n mod 2 ^ (8 * sizeof_unsigned im)"

definition size_t_wrap :: "impl \<Rightarrow> nat \<Rightarrow> nat" where
  "size_t_wrap im n = n mod 2 ^ (8 * sizeof_size_t im)"

text \<open>\<^verbatim>\<open>header_entries[k]\<close> as a read: an absent key is created with the value 0.\<close>

definition entry :: "(string, nat) fmap \<Rightarrow> string \<Rightarrow> nat" where
  "entry m k = (case fmlookup m k of None \<Rightarrow> 0 | Some v \<Rightarrow> v)"

text \<open>
  The loop \<^verbatim>\<open>for (int i = 0; i < 5; ++i)\<close> under \<^verbatim>\<open># Header\<close>. \<^verbatim>\<open>mapping[0]\<close> and \<^verbatim>\<open>mapping[1]\<close> are
  unchecked accesses to the vector that \<^verbatim>\<open>split\<close> returns.
\<close>

fun header_entries_loop :: "impl \<Rightarrow> StringFunctions \<Rightarrow> nat \<Rightarrow> istream \<Rightarrow> string \<Rightarrow> (string, nat) fmap
    \<Rightarrow> error + istream \<times> string \<times> (string, nat) fmap" where
  "header_entries_loop im sf 0 file line header_entries = Inr (file, line, header_entries)"
| "header_entries_loop im sf (Suc k) file line header_entries =
     (case getline file line of
        (file', line') \<Rightarrow>
          (case split sf line' CHR ''='' of
             a # b # others \<Rightarrow>
               (case stoul im (trim sf b) of
                  Inl e \<Rightarrow> Inl e
                | Inr v \<Rightarrow> header_entries_loop im sf k file' line' (fmupd (trim sf a) v header_entries))
           | _ \<Rightarrow> Inl Undefined))"

definition header_section :: "impl \<Rightarrow> StringFunctions \<Rightarrow> istream \<Rightarrow> string \<Rightarrow> Header
    \<Rightarrow> error + istream \<times> string \<times> Header" where
  "header_section im sf file line header =
     (case header_entries_loop im sf 5 file line fmempty of
        Inl e \<Rightarrow> Inl e
      | Inr (file', line', header_entries) \<Rightarrow>
          Inr (file', line',
               header\<lparr>node_count := Some (id_type_wrap im (entry header_entries ''node_count'')),
                      edge_count := Some (id_type_wrap im (entry header_entries ''edge_count'')),
                      node_id_bytes := Some (unsigned_wrap im (entry header_entries ''node_id_bytes'')),
                      property_element_bytes :=
                        Some (unsigned_wrap im (entry header_entries ''property_element_bytes'')),
                      edge_weight_bytes :=
                        Some (unsigned_wrap im (entry header_entries ''edge_weight_bytes''))\<rparr>))"

text \<open>The loop \<^verbatim>\<open>for (auto token : split(line, ','))\<close> under \<^verbatim>\<open># Properties\<close>.\<close>

fun tokens_loop :: "impl \<Rightarrow> StringFunctions \<Rightarrow> string list \<Rightarrow> nat \<Rightarrow> (string \<times> nat) list
    \<Rightarrow> error + nat \<times> (string \<times> nat) list" where
  "tokens_loop im sf [] total_elements props = Inr (total_elements, props)"
| "tokens_loop im sf (token # tokens) total_elements props =
     (case split sf token CHR '':'' of
        a # b # others \<Rightarrow>
          (case stoul im (trim_chars sf b '' )'') of
             Inl e \<Rightarrow> Inl e
           | Inr elements \<Rightarrow>
               tokens_loop im sf tokens (size_t_wrap im (total_elements + elements))
                 (props @ [(trim_chars sf a '' ('', unsigned_wrap im elements)]))
      | _ \<Rightarrow> Inl Undefined)"

text \<open>
  The branch \<^verbatim>\<open># Properties\<close>. \<^verbatim>\<open>find_first_of('(') + 1\<close> is 0 when there is no parenthesis,
  \<^verbatim>\<open>end - start\<close> is computed in \<^verbatim>\<open>std::size_t\<close>, and \<^verbatim>\<open>substr\<close> throws \<^verbatim>\<open>std::out_of_range\<close> when
  \<open>start\<close> is beyond the end of the line. The variable \<open>line\<close> holds the substring
  afterwards.
\<close>

definition properties_section :: "impl \<Rightarrow> StringFunctions \<Rightarrow> istream \<Rightarrow> string \<Rightarrow> Header
    \<Rightarrow> error + istream \<times> string \<times> Header" where
  "properties_section im sf file line header =
     (case getline file line of
        (file', line1) \<Rightarrow>
          (let start_pos = (case find_first_of line1 CHR ''('' of None \<Rightarrow> 0 | Some i \<Rightarrow> i + 1);
               end_pos = (case find_last_of line1 CHR '')'' of
                        None \<Rightarrow> 2 ^ (8 * sizeof_size_t im) - 1 | Some j \<Rightarrow> j)
           in if length line1 < start_pos then Inl OutOfRange
              else
                (let line2 = take (size_t_wrap im (end_pos + 2 ^ (8 * sizeof_size_t im) - start_pos))
                               (drop start_pos line1)
                 in case tokens_loop im sf (split sf line2 CHR '','') 0 (Header_properties header) of
                      Inl e \<Rightarrow> Inl e
                    | Inr (total_elements, props) \<Rightarrow>
                        Inr (file', line2,
                             header\<lparr>Header_properties := props,
                                    total_property_elements :=
                                      Some (unsigned_wrap im total_elements)\<rparr>))))"

text \<open>
  The loop \<^verbatim>\<open>while (file.good() && line != "# Data")\<close> of \<^verbatim>\<open>parse_header\<close>. Nothing in its
  text bounds the number of iterations, so it is a partial function: \<open>None\<close> is a loop
  that does not end.
\<close>

partial_function (option) parse_header_loop :: "impl \<Rightarrow> StringFunctions \<Rightarrow> istream \<Rightarrow> string \<Rightarrow> Header
    \<Rightarrow> (error + Header \<times> istream) option" where
  "parse_header_loop im sf file line header =
     (if good file \<and> line \<noteq> ''# Data'' then
        (case getline file line of
           (file1, line1) \<Rightarrow>
             if line1 = ''# Header'' then
               (case header_section im sf file1 line1 header of
                  Inl e \<Rightarrow> Some (Inl e)
                | Inr (file2, line2, header2) \<Rightarrow> parse_header_loop im sf file2 line2 header2)
             else if line1 = ''# Properties'' then
               (case properties_section im sf file1 line1 header of
                  Inl e \<Rightarrow> Some (Inl e)
                | Inr (file2, line2, header2) \<Rightarrow> parse_header_loop im sf file2 line2 header2)
             else parse_header_loop im sf file1 line1 header)
      else Some (Inr (header, file)))"

definition parse_header :: "impl \<Rightarrow> StringFunctions \<Rightarrow> istream \<Rightarrow> (error + Header \<times> istream) option" where
  "parse_header im sf file = parse_header_loop im sf file [] Header_uninit"

declare parse_header_loop.simps [code]

text \<open>
  The measure for the loop of \<^verbatim>\<open>parse_header\<close>: what a stream that is still good has left to
  read, and nothing once a state bit is set.
\<close>

definition fuel :: "istream \<Rightarrow> nat" where
  "fuel s = (if good s then Suc (length (rest s)) else 0)"

section \<open>Object representations\<close>

text \<open>
  The codec copies the bytes of \<^verbatim>\<open>id_type\<close>, \<^verbatim>\<open>property_type\<close> and \<^verbatim>\<open>struct EdgeInfo\<close> objects to
  and from the file. Which bytes represent which value is the compiler's and the
  machine's business (byte order, floating-point format, padding): the representations
  are parameters. \<open>get_EdgeInfo\<close> gives the members of an \<^verbatim>\<open>EdgeInfo\<close> whose first
  \<^verbatim>\<open>2 * sizeof(id_type) + sizeof(weight_type)\<close> bytes are the given ones.
\<close>

record ('p, 'w) repr =
  put_id :: "nat \<Rightarrow> char list"
  put_property :: "'p \<Rightarrow> char list"
  get_property :: "char list \<Rightarrow> 'p"
  put_EdgeInfo :: "nat \<Rightarrow> nat \<Rightarrow> 'w \<Rightarrow> char list"
  get_EdgeInfo :: "char list \<Rightarrow> nat \<times> nat \<times> 'w"

section \<open>The data section\<close>

text \<open>
  The vector \<^verbatim>\<open>property_values\<close> as the bytes of its elements, and the elements that these
  bytes represent.
\<close>

definition buffer_elements :: "impl \<Rightarrow> ('p, 'w) repr \<Rightarrow> nat \<Rightarrow> char list \<Rightarrow> 'p list" where
  "buffer_elements im rp total_elements buf =
     map (\<lambda>j. get_property rp (take (sizeof_property_type im) (drop (j * sizeof_property_type im) buf)))
       [0 ..< total_elements]"

text \<open>
  The loop \<^verbatim>\<open>for (auto prop_info : header.properties)\<close>: \<^verbatim>\<open>properties[name]\<close> is assigned the
  elements from \<open>start\<close> to \<open>start + d\<close>. Iterators beyond the end of the vector are
  undefined behaviour.
\<close>

fun slice_properties :: "(string \<times> nat) list \<Rightarrow> 'p list \<Rightarrow> nat \<Rightarrow> (string, 'p Property) fmap
    \<Rightarrow> error + (string, 'p Property) fmap" where
  "slice_properties [] property_values start props = Inr props"
| "slice_properties ((name, d) # infos) property_values start props =
     (if length property_values < start + d then Inl Undefined
      else slice_properties infos property_values (start + d)
             (fmupd name (take d (drop start property_values)) props))"

text \<open>
  The loop \<^verbatim>\<open>for (id_type i = 0; i < header.node_count; ++i)\<close> of \<^verbatim>\<open>parse_data\<close>, with \<open>k\<close> nodes
  still to read. The id that is read is not used: the node is \<^verbatim>\<open>Node(i, properties)\<close>
  (modelled from the spec: the constructor, declared in \<^verbatim>\<open>Graph.h\<close>, makes the node with the
  id and the properties that it is given). A read that fails leaves the buffer, or the
  end of it, as it was. \<^verbatim>\<open>&property_values[0]\<close> is undefined behaviour when the vector is
  empty.
\<close>

fun read_nodes :: "impl \<Rightarrow> ('p, 'w) repr \<Rightarrow> Header \<Rightarrow> nat \<Rightarrow> nat \<Rightarrow> nat \<Rightarrow> nat \<Rightarrow> istream
    \<Rightarrow> char list \<Rightarrow> 'p Node list \<Rightarrow> error + istream \<times> 'p Node list" where
  "read_nodes im rp header total_elements property_bytes 0 i stream buf ns = Inr (stream, ns)"
| "read_nodes im rp header total_elements property_bytes (Suc k) i stream buf ns =
     (case stream_read stream (sizeof_id_type im) of
        (stream1, id_data) \<Rightarrow>
          if total_elements = 0 then Inl Undefined
          else
            (case stream_read stream1 property_bytes of
               (stream2, data) \<Rightarrow>
                 (case slice_properties (Header_properties header)
                         (buffer_elements im rp total_elements (data @ drop (length data) buf)) 0 fmempty of
                    Inl e \<Rightarrow> Inl e
                  | Inr props \<Rightarrow>
                      read_nodes im rp header total_elements property_bytes k (Suc i) stream2
                        (data @ drop (length data) buf)
                        (ns @ [\<lparr>Node_id = i, properties = props\<rparr>]))))"

text \<open>
  The loop \<^verbatim>\<open>for (std::size_t i = 0; i < header.edge_count; ++i)\<close>. \<^verbatim>\<open>e_info\<close> is uninitialised,
  so a short read leaves indeterminate members; \<^verbatim>\<open>edges[e_info.source]\<close> is unchecked.
\<close>

fun read_edges :: "impl \<Rightarrow> ('p, 'w) repr \<Rightarrow> nat \<Rightarrow> istream \<Rightarrow> 'w Edge list list
    \<Rightarrow> error + istream \<times> 'w Edge list list" where
  "read_edges im rp 0 stream es = Inr (stream, es)"
| "read_edges im rp (Suc k) stream es =
     (case stream_read stream (2 * sizeof_id_type im + sizeof_weight_type im) of
        (stream1, data) \<Rightarrow>
          if length data < 2 * sizeof_id_type im + sizeof_weight_type im then Inl Undefined
          else
            (case get_EdgeInfo rp data of
               (source, target, weight) \<Rightarrow>
                 if source < length es then
                   read_edges im rp k stream1
                     (es[source := es ! source @ [\<lparr>Edge_node = target, Edge_weight = weight\<rparr>]])
                 else Inl Undefined))"

text \<open>
  \<^verbatim>\<open>parse_data(stream, header)\<close>. The buffer starts with the bytes of value-initialised
  elements. Memory is taken to suffice for \<^verbatim>\<open>reserve\<close> and the two vectors.
\<close>

definition parse_data :: "impl \<Rightarrow> ('p::zero, 'w) repr \<Rightarrow> istream \<Rightarrow> Header
    \<Rightarrow> error + 'p Node list \<times> 'w Edge list list" where
  "parse_data im rp stream header =
     (case node_count header of
        None \<Rightarrow> Inl Undefined
      | Some n \<Rightarrow>
          (case total_property_elements header of
             None \<Rightarrow> Inl Undefined
           | Some total_elements \<Rightarrow>
               (case read_nodes im rp header total_elements (size_t_wrap im (sizeof_property_type im * total_elements))
                       n 0 stream (concat (replicate total_elements (put_property rp 0))) [] of
                  Inl e \<Rightarrow> Inl e
                | Inr (stream1, ns) \<Rightarrow>
                    (case edge_count header of
                       None \<Rightarrow> Inl Undefined
                     | Some m \<Rightarrow>
                         (case read_edges im rp m stream1 (replicate n []) of
                            Inl e \<Rightarrow> Inl e
                          | Inr (stream2, es) \<Rightarrow> Inr (ns, es))))))"

text \<open>
  The three width checks of \<^verbatim>\<open>load_binary\<close>, then \<^verbatim>\<open>parse_data\<close> and \<^verbatim>\<open>Graph(nodes, edges)\<close>
  (modelled from the spec: the constructor, declared in \<^verbatim>\<open>Graph.h\<close>, builds the graph from
  the nodes and the per-node edge lists).
\<close>

definition check_and_load :: "impl \<Rightarrow> ('p::zero, 'w) repr \<Rightarrow> Header \<Rightarrow> istream \<Rightarrow> error + ('p, 'w) Graph" where
  "check_and_load im rp header file =
     (case node_id_bytes header of
        None \<Rightarrow> Inl Undefined
      | Some a \<Rightarrow>
          if a \<noteq> sizeof_id_type im then Inl SchemaError
          else
            (case property_element_bytes header of
               None \<Rightarrow> Inl Undefined
             | Some b \<Rightarrow>
                 if b \<noteq> sizeof_property_type im then Inl SchemaError
                 else
                   (case edge_weight_bytes header of
                      None \<Rightarrow> Inl Undefined
                    | Some c \<Rightarrow>
                        if sizeof_weight_type im < c then Inl SchemaError
                        else
                          (case parse_data im rp file header of
                             Inl e \<Rightarrow> Inl e
                           | Inr (ns, es) \<Rightarrow> Inr \<lparr>nodes = ns, edges = es\<rparr>))))"

text \<open>
  \<^verbatim>\<open>Graph::load_binary(path)\<close>. The file system is the argument: \<open>None\<close> when the file cannot
  be opened, its contents otherwise. The result is \<open>None\<close> when \<^verbatim>\<open>parse_header\<close> does not
  return.
\<close>

definition load_binary :: "impl \<Rightarrow> StringFunctions \<Rightarrow> ('p::zero, 'w) repr \<Rightarrow> char list option
    \<Rightarrow> (error + ('p, 'w) Graph) option" where
  "load_binary im sf rp contents =
     (case contents of
        None \<Rightarrow> Some (Inl IOError)
      | Some c \<Rightarrow>
          (case parse_header im sf (open_stream c) of
             None \<Rightarrow> None
           | Some (Inl e) \<Rightarrow> Some (Inl e)
           | Some (Inr (header, file)) \<Rightarrow> Some (check_and_load im rp header file)))"

section \<open>The writer\<close>

text \<open>
  \<^verbatim>\<open>ceil(8*sizeof(id_type)/log2(10))\<close>, the number of spaces reserved for the edge count
  (computed in \<^verbatim>\<open>double\<close>, idealised by \<open>real\<close>).
\<close>

definition edge_count_width :: "impl \<Rightarrow> nat" where
  "edge_count_width im = nat \<lceil>real (8 * sizeof_id_type im) / log 2 10\<rceil>"

text \<open>The entries of a \<^verbatim>\<open>std::map\<close> in the order of iteration: ascending keys.\<close>

definition items :: "(string, 'v) fmap \<Rightarrow> (string \<times> 'v) list" where
  "items m = sorted_list_of_fmap m"

text \<open>The loop that writes \<^verbatim>\<open>(name:dim)\<close> for each property of node 0, with commas between.\<close>

fun schema_text :: "(string \<times> 'p Property) list \<Rightarrow> string" where
  "schema_text [] = []"
| "schema_text [(name, p)] = ''('' @ name @ '':'' @ decimal (length p) @ '')''"
| "schema_text ((name, p) # more_items) =
     ''('' @ name @ '':'' @ decimal (length p) @ '')'' @ '','' @ schema_text more_items"

definition properties_text :: "('p, 'w) Graph \<Rightarrow> string" where
  "properties_text g =
     (if 0 < no_of_nodes g then
        (if 0 < length (items (properties (nodes g ! 0))) then
           ''# Properties'' @ [NL] @ ''properties = '' @ schema_text (items (properties (nodes g ! 0))) @ [NL]
         else [])
      else [])"

text \<open>
  The header up to the position that \<^verbatim>\<open>tellp\<close> records, and what follows the reserved
  spaces.
\<close>

definition header_text1 :: "('p, 'w) Graph \<Rightarrow> string" where
  "header_text1 g =
     ''# Header'' @ [NL] @ ''node_count = '' @ decimal (no_of_nodes g) @ [NL] @ ''edge_count = ''"

definition header_text2 :: "impl \<Rightarrow> ('p, 'w) Graph \<Rightarrow> string" where
  "header_text2 im g =
     [NL]
     @ ''node_id_bytes = '' @ decimal (sizeof_id_type im) @ [NL]
     @ ''property_element_bytes = '' @ decimal (sizeof_property_type im) @ [NL]
     @ ''edge_weight_bytes = '' @ decimal (sizeof_weight_type im) @ [NL]
     @ properties_text g
     @ ''# Data'' @ [NL]"

text \<open>
  The loop that writes the nodes: the id, then the elements of each property.
  \<^verbatim>\<open>&prop.second.values[0]\<close> is undefined behaviour for a property without elements
  (\<^verbatim>\<open>values\<close>, declared in \<^verbatim>\<open>Graph.h\<close>, is taken to be the \<^verbatim>\<open>std::vector\<close> that \<^verbatim>\<open>parse_data\<close>
  builds a \<^verbatim>\<open>Property\<close> from).
\<close>

definition node_bytes :: "('p, 'w) repr \<Rightarrow> 'p Node \<Rightarrow> char list" where
  "node_bytes rp n =
     put_id rp (Node_id n)
     @ concat (map (\<lambda>(name, p). concat (map (put_property rp) p)) (items (properties n)))"

definition write_nodes :: "('p, 'w) repr \<Rightarrow> 'p Node list \<Rightarrow> error + char list" where
  "write_nodes rp ns =
     (if list_ex (\<lambda>n. list_ex (\<lambda>(name, p). p = []) (items (properties n))) ns then Inl Undefined
      else Inr (concat (map (node_bytes rp) ns)))"

text \<open>
  The loops that write the edges. The state is what has been written and the tally
  (the variable \<^verbatim>\<open>edge_count\<close>, a \<^verbatim>\<open>std::size_t\<close>). Modelled from the spec: \<^verbatim>\<open>Graph::edges(i)\<close> is declared in
  \<^verbatim>\<open>Graph.h\<close>; it is the edge list of node \<open>i\<close>, and asking for a list that the graph does
  not have counts as undefined behaviour.
\<close>

fun write_edges_of :: "impl \<Rightarrow> ('p, 'w) repr \<Rightarrow> nat \<Rightarrow> 'w Edge list \<Rightarrow> char list \<times> nat
    \<Rightarrow> char list \<times> nat" where
  "write_edges_of im rp source [] (out, tally) = (out, tally)"
| "write_edges_of im rp source (e # es) (out, tally) =
     write_edges_of im rp source es
       (out @ put_EdgeInfo rp source (Edge_node e) (Edge_weight e), size_t_wrap im (tally + 1))"

fun write_edges :: "impl \<Rightarrow> ('p, 'w) repr \<Rightarrow> ('p, 'w) Graph \<Rightarrow> nat \<Rightarrow> nat \<Rightarrow> char list \<times> nat
    \<Rightarrow> error + char list \<times> nat" where
  "write_edges im rp g 0 i st = Inr st"
| "write_edges im rp g (Suc k) i st =
     (if i < length (edges g) then
        write_edges im rp g k (Suc i) (write_edges_of im rp i (edges g ! i) st)
      else Inl Undefined)"

text \<open>\<^verbatim>\<open>out.seekp(pos); out << s\<close> on what has been written.\<close>

definition overwrite :: "nat \<Rightarrow> char list \<Rightarrow> char list \<Rightarrow> char list" where
  "overwrite pos s file = take pos file @ s @ drop (pos + length s) file"

text \<open>
  \<^verbatim>\<open>Graph::save_binary(path)\<close>. \<open>can_open\<close> says whether the file can be opened for writing;
  the writes themselves are taken to succeed. The result is the value returned and the
  contents of the file.
\<close>

definition save_binary :: "impl \<Rightarrow> ('p, 'w) repr \<Rightarrow> bool \<Rightarrow> ('p, 'w) Graph \<Rightarrow> error + bool \<times> char list" where
  "save_binary im rp can_open g =
     (if \<not> can_open then Inr (False, [])
      else
        (case write_nodes rp (nodes g) of
           Inl e \<Rightarrow> Inl e
         | Inr node_data \<Rightarrow>
             (case write_edges im rp g (no_of_nodes g) 0 ([], 0) of
                Inl e \<Rightarrow> Inl e
              | Inr (edge_data, tally) \<Rightarrow>
                  Inr (True,
                       overwrite (length (header_text1 g)) (decimal tally)
                         (header_text1 g @ replicate (edge_count_width im) CHR '' '' @ header_text2 im g
                          @ node_data @ edge_data)))))"

section \<open>An instance of the parameters\<close>

text \<open>
  Modelled from the spec: \<^verbatim>\<open>split\<close> and \<^verbatim>\<open>trim\<close> of \<^verbatim>\<open>StringFunctions.h\<close>, which is not part of
  the sources. \<open>split_ref s c\<close> gives the pieces of \<open>s\<close> between the occurrences of \<open>c\<close> (the
  header is split on \<^verbatim>\<open>=\<close>, the schema on \<^verbatim>\<open>,\<close> and each token on \<^verbatim>\<open>:\<close>), without an empty
  piece at the end; \<open>trim_ref chars s\<close> removes the characters of \<open>chars\<close> at both ends
  (surrounding white space, stray parentheses).
\<close>

fun split_aux :: "char \<Rightarrow> string \<Rightarrow> string \<Rightarrow> string list" where
  "split_aux c acc [] = (if acc = [] then [] else [rev acc])"
| "split_aux c acc (x # xs) = (if x = c then rev acc # split_aux c [] xs else split_aux c (x # acc) xs)"

definition split_ref :: "string \<Rightarrow> char \<Rightarrow> string list" where
  "split_ref s c = split_aux c [] s"

definition trim_ref :: "string \<Rightarrow> string \<Rightarrow> string" where
  "trim_ref s chars = rev (dropWhile (\<lambda>c. c \<in> set chars) (rev (dropWhile (\<lambda>c. c \<in> set chars) s)))"

definition ref_strings :: StringFunctions where
  "ref_strings =
     \<lparr>split = split_ref,
      trim = (\<lambda>s. trim_ref s [CHR '' '', CHR 0x09, CHR 0x0A, CHR 0x0D]),
      trim_chars = trim_ref\<rparr>"

text \<open>
  Little-endian representations of 64-bit patterns: ids as they are on an LP64 machine,
  property elements and weights by their bit patterns.
\<close>

fun le_bytes :: "nat \<Rightarrow> nat \<Rightarrow> char list" where
  "le_bytes 0 n = []"
| "le_bytes (Suc k) n = char_of (n mod 256) # le_bytes k (n div 256)"

fun le_nat :: "char list \<Rightarrow> nat" where
  "le_nat [] = 0"
| "le_nat (c # cs) = of_char c + 256 * le_nat cs"

definition le_repr :: "(nat, nat) repr" where
  "le_repr =
     \<lparr>put_id = le_bytes 8,
      put_property = le_bytes 8,
      get_property = le_nat,
      put_EdgeInfo = (\<lambda>source target weight. le_bytes 8 source @ le_bytes 8 target @ le_bytes 8 weight),
      get_EdgeInfo = (\<lambda>data. (le_nat (take 8 data), le_nat (take 8 (drop 8 data)),
                               le_nat (take 8 (drop 16 data))))\<rparr>"

text \<open>
  The same for any sizes, the padding of \<^verbatim>\<open>struct EdgeInfo\<close> at its end, and a machine with
  32-bit ids, 64-bit \<^verbatim>\<open>std::size_t\<close> and \<^verbatim>\<open>double\<close> weights.
\<close>

definition le_repr_of :: "impl \<Rightarrow> (nat, nat) repr" where
  "le_repr_of im =
     \<lparr>put_id = le_bytes (sizeof_id_type im),
      put_property = le_bytes (sizeof_property_type im),
      get_property = le_nat,
      put_EdgeInfo = (\<lambda>source target weight.
         le_bytes (sizeof_id_type im) source @ le_bytes (sizeof_id_type im) target
         @ le_bytes (sizeof_weight_type im) weight
         @ replicate (sizeof_EdgeInfo im - (2 * sizeof_id_type im + sizeof_weight_type im)) (CHR 0x00)),
      get_EdgeInfo = (\<lambda>data.
         (le_nat (take (sizeof_id_type im) data),
          le_nat (take (sizeof_id_type im) (drop (sizeof_id_type im) data)),
          le_nat (take (sizeof_weight_type im) (drop (2 * sizeof_id_type im) data))))\<rparr>"

definition ids32 :: impl where
  "ids32 = \<lparr>sizeof_id_type = 4, sizeof_property_type = 8, sizeof_weight_type = 8, sizeof_size_t = 8,
     sizeof_unsigned = 4, sizeof_EdgeInfo = 16\<rparr>"

section \<open>Auxiliary notions for the codec\<close>

text \<open>
  The five entries of the header as the file holds them once the edge count has been
  written over the reserved spaces.
\<close>

definition entries_text :: "impl \<Rightarrow> nat \<Rightarrow> nat \<Rightarrow> string" where
  "entries_text im n e =
     ''node_count = '' @ decimal n @ [NL]
     @ ''edge_count = '' @ decimal e @ replicate (edge_count_width im - length (decimal e)) CHR '' '' @ [NL]
     @ ''node_id_bytes = '' @ decimal (sizeof_id_type im) @ [NL]
     @ ''property_element_bytes = '' @ decimal (sizeof_property_type im) @ [NL]
     @ ''edge_weight_bytes = '' @ decimal (sizeof_weight_type im) @ [NL]"

text \<open>
  The schema line between its first and its last parenthesis, and the property names that
  the reader can tell apart from the separators of the line.
\<close>

fun inner_text :: "(string \<times> 'p Property) list \<Rightarrow> string" where
  "inner_text [] = []"
| "inner_text [(name, p)] = name @ '':'' @ decimal (length p)"
| "inner_text ((name, p) # more_items) =
     name @ '':'' @ decimal (length p) @ '')'' @ '','' @ ''('' @ inner_text more_items"

definition name_ok :: "string \<Rightarrow> bool" where
  "name_ok name \<longleftrightarrow> CHR '','' \<notin> set name \<and> CHR '':'' \<notin> set name \<and> NL \<notin> set name"

definition schema_of :: "(string \<times> 'p Property) list \<Rightarrow> (string \<times> nat) list" where
  "schema_of its = map (\<lambda>(name, p). (name, length p)) its"

definition loaded_schema :: "(string \<times> 'p Property) list \<Rightarrow> (string \<times> nat) list" where
  "loaded_schema its = map (\<lambda>(name, p). (trim_ref name '' ('', length p)) its"

text \<open>
  The header of a file as the writer leaves it on the machine \<open>wr\<close>, for \<open>n\<close> nodes, \<open>e\<close> edges
  and the properties \<open>its\<close> of node 0, and the header that the reader makes of it on the
  machine \<open>im\<close>.
\<close>

definition schema_lines :: "(string \<times> 'p Property) list \<Rightarrow> string" where
  "schema_lines its =
     (if its = [] then []
      else ''# Properties'' @ [NL] @ ''properties = '' @ schema_text its @ [NL])"

definition written_header :: "impl \<Rightarrow> nat \<Rightarrow> nat \<Rightarrow> (string \<times> 'p Property) list \<Rightarrow> string" where
  "written_header im n e its =
     ''# Header'' @ [NL] @ entries_text im n e @ schema_lines its @ ''# Data'' @ [NL]"

definition read_header :: "impl \<Rightarrow> impl \<Rightarrow> nat \<Rightarrow> nat \<Rightarrow> (string \<times> 'p Property) list \<Rightarrow> Header" where
  "read_header wr im n e its =
     \<lparr>node_count = Some (id_type_wrap im n),
      edge_count = Some (id_type_wrap im e),
      node_id_bytes = Some (unsigned_wrap im (sizeof_id_type wr)),
      property_element_bytes = Some (unsigned_wrap im (sizeof_property_type wr)),
      total_property_elements =
        (if its = [] then None else Some (sum_list (map (\<lambda>(name, p). length p) its))),
      edge_weight_bytes = Some (unsigned_wrap im (sizeof_weight_type wr)),
      Header_properties = loaded_schema its\<rparr>"

text \<open>
  What the reader needs of the sizes and of the graph for the numbers of the header to
  come back as they were written.
\<close>

definition header_fits :: "impl \<Rightarrow> impl \<Rightarrow> nat \<Rightarrow> nat \<Rightarrow> (string \<times> 'p Property) list \<Rightarrow> bool" where
  "header_fits wr im n e its \<longleftrightarrow>
     n < 2 ^ (8 * sizeof_size_t im) \<and> e < 2 ^ (8 * sizeof_size_t im)
     \<and> sizeof_id_type wr < 2 ^ (8 * sizeof_size_t im)
     \<and> sizeof_property_type wr < 2 ^ (8 * sizeof_size_t im)
     \<and> sizeof_weight_type wr < 2 ^ (8 * sizeof_size_t im)
     \<and> sizeof_unsigned im \<le> sizeof_size_t im
     \<and> sum_list (map (\<lambda>(name, p). length p) its) < 2 ^ (8 * sizeof_unsigned im)
     \<and> length (inner_text its) < 2 ^ (8 * sizeof_size_t im)
     \<and> list_all (\<lambda>(name, p). name_ok name) its"

text \<open>
  A file whose header ends before a line \<^verbatim>\<open># Data\<close>: the header that the writer makes for
  a graph without nodes and edges and with one scalar property, cut after the schema.
\<close>

definition truncated_file :: "char list" where
  "truncated_file =
     ''# Header'' @ [NL] @ entries_text lp64 0 0
     @ ''# Properties'' @ [NL] @ ''properties = (prior:1)'' @ [NL]"

text \<open>The characters that \<open>trim\<close> of \<open>ref_strings\<close> removes.\<close>

abbreviation ws :: string where
  "ws \<equiv> [CHR '' '', CHR 0x09, CHR 0x0A, CHR 0x0D]"




section \<open>Example graphs and files\<close>

text \<open>
  A graph of two nodes whose ids are not their positions, with one scalar property and
  one edge; the data section and the file that \<^verbatim>\<open>save_binary\<close> writes for it on an LP64
  machine, the header that \<^verbatim>\<open>parse_header\<close> makes of the file, and the graph that
  \<^verbatim>\<open>load_binary\<close> returns.
\<close>

definition relabelled_graph :: "(nat, nat) Graph" where
  "relabelled_graph =
     \<lparr>nodes = [\<lparr>Node_id = 7, properties = fmupd ''prior'' [5] fmempty\<rparr>,
               \<lparr>Node_id = 3, properties = fmupd ''prior'' [6] fmempty\<rparr>],
      edges = [[\<lparr>Edge_node = 1, Edge_weight = 2\<rparr>], []]\<rparr>"

definition relabelled_data :: "char list" where
  "relabelled_data =
     le_bytes 8 7 @ le_bytes 8 5 @ le_bytes 8 3 @ le_bytes 8 6
     @ le_bytes 8 0 @ le_bytes 8 1 @ le_bytes 8 2"

definition relabelled_file :: "char list" where
  "relabelled_file = written_header lp64 2 1 [(''prior'', [5::nat])] @ relabelled_data"

definition relabelled_header :: Header where
  "relabelled_header =
     \<lparr>node_count = Some 2, edge_count = Some 1, node_id_bytes = Some 8,
      property_element_bytes = Some 8, total_property_elements = Some 1,
      edge_weight_bytes = Some 8, Header_properties = [(''prior'', 1)]\<rparr>"

definition reloaded_graph :: "(nat, nat) Graph" where
  "reloaded_graph =
     \<lparr>nodes = [\<lparr>Node_id = 0, properties = fmupd ''prior'' [5] fmempty\<rparr>,
               \<lparr>Node_id = 1, properties = fmupd ''prior'' [6] fmempty\<rparr>],
      edges = [[\<lparr>Edge_node = 1, Edge_weight = 2\<rparr>], []]\<rparr>"




text \<open>
  A graph of one node without properties and one loop edge, and the data section and
  the file that \<^verbatim>\<open>save_binary\<close> writes for it on an LP64 machine: the header has no
  \<^verbatim>\<open># Properties\<close> section.
\<close>

definition loop_graph :: "(nat, nat) Graph" where
  "loop_graph =
     \<lparr>nodes = [\<lparr>Node_id = 0, properties = fmempty\<rparr>],
      edges = [[\<lparr>Edge_node = 0, Edge_weight = 2\<rparr>]]\<rparr>"

definition loop_data :: "char list" where
  "loop_data = le_bytes 8 0 @ le_bytes 8 0 @ le_bytes 8 0 @ le_bytes 8 2"

definition loop_file :: "char list" where
  "loop_file = written_header lp64 1 1 ([] :: (string \<times> nat Property) list) @ loop_data"

section \<open>Invariants of the scorer's loops\<close>

lemma endpoints_visited: "endpoints r2r \<subseteq> visited r2r"
proof
  fix i assume "i \<in> endpoints r2r"
  then obtain p where p: "p \<in> set r2r" "2 \<le> length p" "i = dn_id (hd p) \<or> i = dn_id (last p)"
    by (auto simp: endpoints_def)
  then have "p \<noteq> []" by auto
  then have "hd p \<in> set p" "last p \<in> set p" by simp_all
  with p show "i \<in> visited r2r" by (auto simp: visited_def)
qed

lemma visit_path_invariant:
  assumes run: "visit_path dflt count confidence score ds g = (r, g')"
    and Q0: "Q g"
    and ad: "\<And>j k x g r g'. k = count \<or> k = confidence \<Longrightarrow> j \<in> dn_id ` set ds \<Longrightarrow> Q g
               \<Longrightarrow> add_elem0 dflt j k x g = (r, g') \<Longrightarrow> Q g'"
  shows "Q g'"
  using run Q0 ad
proof (induction ds arbitrary: g)
  case Nil
  then show ?case by simp
next
  case (Cons d ds)
  obtain e1 g1 where s1: "add_elem0 dflt (dn_id d) count 1 g = (e1, g1)" by fastforce
  obtain e2 g2 where s2: "add_elem0 dflt (dn_id d) confidence score g1 = (e2, g2)" by fastforce
  have q1: "Q g1" using Cons.prems(3) [OF _ _ Cons.prems(2) s1] by simp
  have q2: "Q g2" using Cons.prems(3) [OF _ _ q1 s2] by simp
  have ad': "Q g'" if "k = count \<or> k = confidence" "j \<in> dn_id ` set ds" "Q g"
      "add_elem0 dflt j k x g = (r, g')" for j k x g r g'
  proof -
    from that(2) have "j \<in> dn_id ` set (d # ds)" by auto
    from Cons.prems(3) [OF that(1) this that(3) that(4)] show ?thesis .
  qed
  show ?case
  proof (cases e1)
    case (Some e)
    with Cons.prems(1) s1 q1 show ?thesis by simp
  next
    case None
    note n1 = this
    show ?thesis
    proof (cases e2)
      case (Some e)
      with Cons.prems(1) s1 s2 n1 q2 show ?thesis by simp
    next
      case None
      with Cons.prems(1) s1 s2 n1 have "visit_path dflt count confidence score ds g2 = (r, g')" by simp
      from Cons.IH [OF this q2 ad'] show ?thesis by simp
    qed
  qed
qed

lemma score_path_invariant:
  assumes run: "score_path dflt prior count confidence path g = (r, g')"
    and Q0: "Q g"
    and rd: "\<And>j g r g'. j = dn_id (hd path) \<or> j = dn_id (last path) \<Longrightarrow> Q g
               \<Longrightarrow> read_elem0 dflt j prior g = (r, g') \<Longrightarrow> Q g'"
    and ad: "\<And>j k x g r g'. k = count \<or> k = confidence \<Longrightarrow> j \<in> dn_id ` set path \<Longrightarrow> Q g
               \<Longrightarrow> add_elem0 dflt j k x g = (r, g') \<Longrightarrow> Q g'"
  shows "Q g'"
proof (cases "2 \<le> length path")
  case False
  then have "\<not> real (length path) - 1 > 0" by simp
  with run Q0 show ?thesis by (simp add: score_path_def)
next
  case True
  from True have pos: "real (length path) - 1 > 0" by simp
  obtain r1 g1 where s1: "read_elem0 dflt (dn_id (hd path)) prior g = (r1, g1)" by fastforce
  obtain r2 g2 where s2: "read_elem0 dflt (dn_id (last path)) prior g1 = (r2, g2)" by fastforce
  have q1: "Q g1" using rd [OF _ Q0 s1] by simp
  have q2: "Q g2" using rd [OF _ q1 s2] by simp
  show ?thesis
  proof (cases r1)
    case (Inl e)
    with run pos s1 q1 show ?thesis by (simp add: score_path_def)
  next
    case (Inr p0)
    note i1 = this
    show ?thesis
    proof (cases r2)
      case (Inl e)
      with run pos s1 s2 i1 q2 show ?thesis by (simp add: score_path_def)
    next
      case (Inr pn)
      with run pos s1 s2 i1 obtain sc where
        "visit_path dflt count confidence sc path g2 = (r, g')"
        by (simp add: score_path_def Let_def)
      from visit_path_invariant [OF this, of Q, OF q2 ad] show ?thesis by simp
    qed
  qed
qed

lemma score_paths_invariant:
  assumes run: "score_paths dflt prior count confidence r2r g = (r, g')"
    and Q0: "Q g"
    and rd: "\<And>j g r g'. j \<in> endpoints r2r \<Longrightarrow> Q g \<Longrightarrow> read_elem0 dflt j prior g = (r, g') \<Longrightarrow> Q g'"
    and ad: "\<And>j k x g r g'. k = count \<or> k = confidence \<Longrightarrow> j \<in> visited r2r \<Longrightarrow> Q g
               \<Longrightarrow> add_elem0 dflt j k x g = (r, g') \<Longrightarrow> Q g'"
  shows "Q g'"
  using run Q0 rd ad
proof (induction r2r arbitrary: g)
  case Nil
  then show ?case by simp
next
  case (Cons p ps)
  obtain e1 g1 where s1: "score_path dflt prior count confidence p g = (e1, g1)" by fastforce
  have q1: "Q g1"
  proof (cases "2 \<le> length p")
    case False
    then have "\<not> real (length p) - 1 > 0" by simp
    with s1 Cons.prems(2) show ?thesis by (simp add: score_path_def)
  next
    case True
    have e: "dn_id (hd p) \<in> endpoints (p # ps)" "dn_id (last p) \<in> endpoints (p # ps)"
      using True by (auto simp: endpoints_def)
    have v: "\<And>j. j \<in> dn_id ` set p \<Longrightarrow> j \<in> visited (p # ps)"
      using True by (auto simp: visited_def)
    have rd': "Q g'" if "j = dn_id (hd p) \<or> j = dn_id (last p)" "Q g"
        "read_elem0 dflt j prior g = (r, g')" for j g r g'
    proof -
      from that(1) e have "j \<in> endpoints (p # ps)" by auto
      from Cons.prems(3) [OF this that(2) that(3)] show ?thesis .
    qed
    have ad': "Q g'" if "k = count \<or> k = confidence" "j \<in> dn_id ` set p" "Q g"
        "add_elem0 dflt j k x g = (r, g')" for j k x g r g'
      using Cons.prems(4) [OF that(1) v [OF that(2)] that(3) that(4)] .
    show ?thesis
      using score_path_invariant [OF s1, of Q, OF Cons.prems(2) rd' ad'] .
  qed
  have sub: "endpoints ps \<subseteq> endpoints (p # ps)" "visited ps \<subseteq> visited (p # ps)"
    by (auto simp: endpoints_def visited_def)
  show ?case
  proof (cases e1)
    case (Some e)
    with Cons.prems(1) s1 q1 show ?thesis by simp
  next
    case None
    with Cons.prems(1) s1 have run': "score_paths dflt prior count confidence ps g1 = (r, g')" by simp
    have rd': "Q g'" if "j \<in> endpoints ps" "Q g" "read_elem0 dflt j prior g = (r, g')" for j g r g'
    proof -
      from that(1) sub have "j \<in> endpoints (p # ps)" by auto
      from Cons.prems(3) [OF this that(2) that(3)] show ?thesis .
    qed
    have ad': "Q g'" if "k = count \<or> k = confidence" "j \<in> visited ps" "Q g"
        "add_elem0 dflt j k x g = (r, g')" for j k x g r g'
    proof -
      from that(2) sub have "j \<in> visited (p # ps)" by auto
      from Cons.prems(4) [OF that(1) this that(3) that(4)] show ?thesis .
    qed
    show ?thesis
      using Cons.IH [OF run' q1 rd' ad'] .
  qed
qed

lemma frame_refl: "frame S dflt prior count confidence a a"
  by (simp add: frame_def)

lemma frame_trans:
  assumes "frame S dflt prior count confidence a b" and "frame S dflt prior count confidence b c"
  shows "frame S dflt prior count confidence a c"
  unfolding frame_def
proof (intro conjI allI impI)
  show "length (nodes c) = length (nodes a)" "edges c = edges a"
    using assms by (simp_all add: frame_def)
next
  fix i assume i: "i < length (nodes a)"
  then have i': "i < length (nodes b)" using assms(1) by (simp add: frame_def)
  show "Node_id (nodes c ! i) = Node_id (nodes a ! i)"
    using assms i i' by (simp add: frame_def)
  fix k assume k: "k \<noteq> count" "k \<noteq> confidence"
  from assms(1) i k have ab: "fmlookup (properties (nodes b ! i)) k = fmlookup (properties (nodes a ! i)) k \<or>
           (k = prior \<and> i \<in> S \<and> fmlookup (properties (nodes a ! i)) k = None \<and>
            fmlookup (properties (nodes b ! i)) k = Some dflt)"
    unfolding frame_def by blast
  from assms(2) i' k have bc: "fmlookup (properties (nodes c ! i)) k = fmlookup (properties (nodes b ! i)) k \<or>
           (k = prior \<and> i \<in> S \<and> fmlookup (properties (nodes b ! i)) k = None \<and>
            fmlookup (properties (nodes c ! i)) k = Some dflt)"
    unfolding frame_def by blast
  from ab bc show "fmlookup (properties (nodes c ! i)) k = fmlookup (properties (nodes a ! i)) k \<or>
           (k = prior \<and> i \<in> S \<and> fmlookup (properties (nodes a ! i)) k = None \<and>
            fmlookup (properties (nodes c ! i)) k = Some dflt)"
    by auto
qed

lemma nodes_set_properties:
  "length (nodes (set_properties i m g)) = length (nodes g)"
  "edges (set_properties i m g) = edges g"
  "j < length (nodes g) \<Longrightarrow> Node_id (nodes (set_properties i m g) ! j) = Node_id (nodes g ! j)"
  "j < length (nodes g) \<Longrightarrow> properties (nodes (set_properties i m g) ! j) = (if j = i then m else properties (nodes g ! j))"
  by (cases "j = i"; simp add: set_properties_def)+

lemma frame_read_elem0:
  "read_elem0 dflt i prior g = (r, g') \<Longrightarrow> i \<in> S \<Longrightarrow> frame S dflt prior count confidence g g'"
  unfolding read_elem0_def map_index_def frame_def
  by (auto split: if_splits option.splits list.splits simp: nodes_set_properties)

lemma frame_add_elem0:
  "k = count \<or> k = confidence \<Longrightarrow> add_elem0 dflt i k x g = (r, g') \<Longrightarrow> frame S dflt prior count confidence g g'"
  unfolding add_elem0_def map_index_def frame_def
  by (auto split: if_splits option.splits list.splits simp: nodes_set_properties)

lemma frame_score_paths:
  assumes "score_paths dflt prior count confidence r2r g = (r, g')"
  shows "frame (endpoints r2r) dflt prior count confidence g g'"
proof (rule score_paths_invariant [OF assms, of "frame (endpoints r2r) dflt prior count confidence g"])
  show "frame (endpoints r2r) dflt prior count confidence g g" by (rule frame_refl)
next
  fix j a r b
  assume j: "j \<in> endpoints r2r" and fa: "frame (endpoints r2r) dflt prior count confidence g a"
    and rd: "read_elem0 dflt j prior a = (r, b)"
  show "frame (endpoints r2r) dflt prior count confidence g b"
    by (rule frame_trans [OF fa frame_read_elem0 [OF rd j]])
next
  fix j k x a r b
  assume k: "k = count \<or> k = confidence" and fa: "frame (endpoints r2r) dflt prior count confidence g a"
    and ad: "add_elem0 dflt j k x a = (r, b)"
  show "frame (endpoints r2r) dflt prior count confidence g b"
    by (rule frame_trans [OF fa frame_add_elem0 [OF k ad]])
qed

lemma untouched_read_elem0:
  "read_elem0 dflt j k g = (r, g') \<Longrightarrow> i \<noteq> j \<Longrightarrow> nodes g' ! i = nodes g ! i"
  by (auto simp: read_elem0_def set_properties_def split: if_splits prod.splits list.splits)

lemma untouched_add_elem0:
  "add_elem0 dflt j k x g = (r, g') \<Longrightarrow> i \<noteq> j \<Longrightarrow> nodes g' ! i = nodes g ! i"
  by (auto simp: add_elem0_def set_properties_def split: if_splits prod.splits list.splits)

lemma untouched_score_paths:
  assumes "score_paths dflt prior count confidence r2r g = (r, g')" and "i \<notin> visited r2r"
  shows "nodes g' ! i = nodes g ! i"
proof (rule score_paths_invariant [OF assms(1), of "\<lambda>a. nodes a ! i = nodes g ! i"])
  show "nodes g ! i = nodes g ! i" by simp
next
  fix j a r b
  assume j: "j \<in> endpoints r2r" and a: "nodes a ! i = nodes g ! i"
    and rd: "read_elem0 dflt j prior a = (r, b)"
  from j assms(2) endpoints_visited have "i \<noteq> j" by blast
  from untouched_read_elem0 [OF rd this] a show "nodes b ! i = nodes g ! i" by simp
next
  fix j k x a r b
  assume j: "j \<in> visited r2r" and a: "nodes a ! i = nodes g ! i"
    and ad: "add_elem0 dflt j k x a = (r, b)"
  from j assms(2) have "i \<noteq> j" by blast
  from untouched_add_elem0 [OF ad this] a show "nodes b ! i = nodes g ! i" by simp
qed

lemma reset_all_nodes:
  "length (nodes (reset_all count confidence g)) = length (nodes g)"
  "edges (reset_all count confidence g) = edges g"
  "i < length (nodes g) \<Longrightarrow> nodes (reset_all count confidence g) ! i = reset_node count confidence (nodes g ! i)"
  by (simp_all add: reset_all_def)

lemma reset_node_lookup:
  "fmlookup (properties (reset_node count confidence n)) k =
     (if k = count \<or> k = confidence then Some [0] else fmlookup (properties n) k)"
  "Node_id (reset_node count confidence n) = Node_id n"
  by (simp_all add: reset_node_def Property1_def)

lemma length_score_paths:
  "score_paths dflt prior count confidence r2r g = (r, g') \<Longrightarrow> length (nodes g') = length (nodes g)"
  using frame_score_paths [of dflt prior count confidence r2r g r g'] by (simp add: frame_def)


lemma set_properties_same:
  "i < length (nodes g) \<Longrightarrow> set_properties i (properties (nodes g ! i)) g = g"
  by (simp add: set_properties_def)

lemma read_elem0_present:
  "i < length (nodes g) \<Longrightarrow> fmlookup (properties (nodes g ! i)) k = Some (v # vs)
   \<Longrightarrow> read_elem0 dflt i k g = (Inr v, g)"
  by (simp add: read_elem0_def map_index_def set_properties_same)

lemma add_elem0_present:
  "i < length (nodes g) \<Longrightarrow> fmlookup (properties (nodes g ! i)) k = Some (v # vs)
   \<Longrightarrow> add_elem0 dflt i k x g =
       (None, set_properties i (fmupd k ((v + x) # vs) (properties (nodes g ! i))) g)"
  by (simp add: add_elem0_def map_index_def)

lemma scalars_read_elem0:
  assumes rd: "read_elem0 dflt j prior g = (r, g')" and sc: "scalars count confidence g"
  shows "scalars count confidence g'"
proof (cases "j < length (nodes g)")
  case False
  with rd sc show ?thesis by (simp add: read_elem0_def)
next
  case True
  show ?thesis
  proof (cases "fmlookup (properties (nodes g ! j)) prior")
    case None
    with sc True have ne: "prior \<noteq> count" "prior \<noteq> confidence"
      by (auto simp: scalars_def)
    from rd True None have "g' = set_properties j (fmupd prior dflt (properties (nodes g ! j))) g"
      by (auto simp: read_elem0_def map_index_def split: list.splits)
    with sc ne show ?thesis
      by (simp add: scalars_def nodes_set_properties)
  next
    case (Some p)
    with rd True have "g' = g"
      by (auto simp: read_elem0_def map_index_def set_properties_same split: list.splits)
    with sc show ?thesis by simp
  qed
qed

lemma scalars_add_elem0:
  assumes ad: "add_elem0 dflt j k x g = (r, g')" and k: "k = count \<or> k = confidence"
    and sc: "scalars count confidence g"
  shows "scalars count confidence g'"
proof (cases "j < length (nodes g)")
  case False
  with ad sc show ?thesis by (simp add: add_elem0_def)
next
  case True
  with sc k obtain c where c: "fmlookup (properties (nodes g ! j)) k = Some [c]"
    by (auto simp: scalars_def)
  from ad add_elem0_present [OF True c, of dflt x]
  have "g' = set_properties j (fmupd k [c + x] (properties (nodes g ! j))) g" by simp
  with sc show ?thesis
    by (simp add: scalars_def nodes_set_properties)
qed

lemma scalars_score_paths:
  assumes run: "score_paths dflt prior count confidence r2r g = (r, g')" and sc: "scalars count confidence g"
  shows "scalars count confidence g'"
proof (rule score_paths_invariant [OF run, of "scalars count confidence", OF sc])
  fix j a r b
  assume "scalars count confidence a" "read_elem0 dflt j prior a = (r, b)"
  then show "scalars count confidence b" using scalars_read_elem0 by blast
next
  fix j k x a r b
  assume "k = count \<or> k = confidence" "scalars count confidence a" "add_elem0 dflt j k x a = (r, b)"
  then show "scalars count confidence b" using scalars_add_elem0 by blast
qed

lemma scalars_reset_all: "scalars count confidence (reset_all count confidence g)"
  by (simp add: scalars_def reset_all_nodes reset_node_lookup)

lemma no_of_nodes_S1_graph: "no_of_nodes S1_graph = 2"
  by (simp add: no_of_nodes_def S1_graph_def)


lemma graph_eqI:
  assumes "length (nodes a) = length (nodes b)" and "edges a = edges b"
    and "\<And>i. i < length (nodes a) \<Longrightarrow> Node_id (nodes a ! i) = Node_id (nodes b ! i)"
    and "\<And>i k. i < length (nodes a) \<Longrightarrow>
           fmlookup (properties (nodes a ! i)) k = fmlookup (properties (nodes b ! i)) k"
  shows "a = (b :: ('p, 'w) Graph)"
proof -
  have "nodes a ! i = nodes b ! i" if "i < length (nodes a)" for i
  proof -
    have "properties (nodes a ! i) = properties (nodes b ! i)"
      by (rule fmap_ext) (rule assms(4) [OF that])
    with assms(3) [OF that] show ?thesis by simp
  qed
  with assms(1) have "nodes a = nodes b" by (simp add: nth_equalityI)
  with assms(2) show ?thesis by simp
qed

lemma ensure_prior_simps:
  "length (nodes (ensure_prior dflt prior i g)) = length (nodes g)"
  "edges (ensure_prior dflt prior i g) = edges g"
  "j < length (nodes g) \<Longrightarrow> Node_id (nodes (ensure_prior dflt prior i g) ! j) = Node_id (nodes g ! j)"
  "j < length (nodes g) \<Longrightarrow> fmlookup (properties (nodes (ensure_prior dflt prior i g) ! j)) k =
      (if j = i \<and> k = prior \<and> fmlookup (properties (nodes g ! i)) prior = None then Some dflt
       else fmlookup (properties (nodes g ! j)) k)"
  by (simp_all add: ensure_prior_def nodes_set_properties)

lemma ensure_prior_id:
  "i < length (nodes g) \<longrightarrow> fmlookup (properties (nodes g ! i)) prior \<noteq> None
   \<Longrightarrow> ensure_prior dflt prior i g = g"
  by (auto simp: ensure_prior_def)

lemma ensure_prior_commute:
  "ensure_prior dflt prior i (ensure_prior dflt prior j g) =
   ensure_prior dflt prior j (ensure_prior dflt prior i g)"
  by (rule graph_eqI) (auto simp: ensure_prior_simps)

lemma cur_ensure_prior:
  "j < length (nodes g) \<Longrightarrow> cur dflt (ensure_prior dflt prior i g) j k =
     (if k = prior \<and> j = i then cur dflt g j prior else cur dflt g j k)"
  by (auto simp: cur_def ensure_prior_simps split: option.splits)

lemma read_elem0_eq:
  "read_elem0 dflt j prior g =
     (if j < length (nodes g) then (case cur dflt g j prior of [] \<Rightarrow> Inl OutOfRange | v # vs \<Rightarrow> Inr v)
      else Inl OutOfRange, ensure_prior dflt prior j g)"
  by (auto simp: read_elem0_def map_index_def cur_def ensure_prior_def set_properties_same
      split: option.splits list.splits)

lemma read_elem0_ensure:
  "read_elem0 dflt j prior (ensure_prior dflt prior i g) =
     (fst (read_elem0 dflt j prior g), ensure_prior dflt prior i (snd (read_elem0 dflt j prior g)))"
  by (simp add: read_elem0_eq ensure_prior_simps cur_ensure_prior ensure_prior_commute)

lemma add_elem0_simps:
  "length (nodes (snd (add_elem0 dflt j k x g))) = length (nodes g)"
  "edges (snd (add_elem0 dflt j k x g)) = edges g"
  "i < length (nodes g) \<Longrightarrow> Node_id (nodes (snd (add_elem0 dflt j k x g)) ! i) = Node_id (nodes g ! i)"
  "i < length (nodes g) \<Longrightarrow> fmlookup (properties (nodes (snd (add_elem0 dflt j k x g)) ! i)) k' =
      (if i = j \<and> k' = k then
         (case cur dflt g j k of [] \<Rightarrow> Some [] | v # vs \<Rightarrow> Some ((v + x) # vs))
       else fmlookup (properties (nodes g ! i)) k')"
  "fst (add_elem0 dflt j k x g) =
      (if j < length (nodes g) then (case cur dflt g j k of [] \<Rightarrow> Some OutOfRange | v # vs \<Rightarrow> None)
       else Some OutOfRange)"
  by (auto simp: add_elem0_def map_index_def cur_def nodes_set_properties
      split: option.splits list.splits)

lemma add_elem0_ensure:
  assumes "k \<noteq> prior"
  shows "add_elem0 dflt j k x (ensure_prior dflt prior i g) =
     (fst (add_elem0 dflt j k x g), ensure_prior dflt prior i (snd (add_elem0 dflt j k x g)))"
proof (rule prod_eqI)
  show "fst (add_elem0 dflt j k x (ensure_prior dflt prior i g)) =
      fst (fst (add_elem0 dflt j k x g), ensure_prior dflt prior i (snd (add_elem0 dflt j k x g)))"
    using assms by (simp add: add_elem0_simps ensure_prior_simps cur_ensure_prior)
  show "snd (add_elem0 dflt j k x (ensure_prior dflt prior i g)) =
      snd (fst (add_elem0 dflt j k x g), ensure_prior dflt prior i (snd (add_elem0 dflt j k x g)))"
    unfolding snd_conv
    by (rule graph_eqI)
       (use assms in \<open>auto simp: add_elem0_simps ensure_prior_simps cur_ensure_prior\<close>)
qed

lemma visit_path_ensure:
  assumes "count \<noteq> prior" "confidence \<noteq> prior"
  shows "visit_path dflt count confidence score ds (ensure_prior dflt prior i g) =
     (fst (visit_path dflt count confidence score ds g),
      ensure_prior dflt prior i (snd (visit_path dflt count confidence score ds g)))"
proof (induction ds arbitrary: g)
  case Nil
  show ?case by simp
next
  case (Cons d ds)
  obtain e1 g1 where s1: "add_elem0 dflt (dn_id d) count 1 g = (e1, g1)" by fastforce
  obtain e2 g2 where s2: "add_elem0 dflt (dn_id d) confidence score g1 = (e2, g2)" by fastforce
  have t1: "add_elem0 dflt (dn_id d) count 1 (ensure_prior dflt prior i g) = (e1, ensure_prior dflt prior i g1)"
    using add_elem0_ensure [OF assms(1), of dflt "dn_id d" 1 i g] s1 by simp
  have t2: "add_elem0 dflt (dn_id d) confidence score (ensure_prior dflt prior i g1)
      = (e2, ensure_prior dflt prior i g2)"
    using add_elem0_ensure [OF assms(2), of dflt "dn_id d" score i g1] s2 by simp
  show ?case
  proof (cases e1)
    case (Some e)
    with s1 t1 show ?thesis by simp
  next
    case None
    note n1 = this
    show ?thesis
    proof (cases e2)
      case (Some e)
      with s1 t1 s2 t2 n1 show ?thesis by simp
    next
      case None
      with s1 t1 s2 t2 n1 Cons.IH [of g2] show ?thesis by simp
    qed
  qed
qed

lemma score_path_ensure:
  assumes "count \<noteq> prior" "confidence \<noteq> prior"
  shows "score_path dflt prior count confidence path (ensure_prior dflt prior i g) =
     (fst (score_path dflt prior count confidence path g),
      ensure_prior dflt prior i (snd (score_path dflt prior count confidence path g)))"
proof (cases "real (length path) - 1 > 0")
  case False
  then show ?thesis by (simp add: score_path_def)
next
  case True
  obtain r1 g1 where s1: "read_elem0 dflt (dn_id (hd path)) prior g = (r1, g1)" by fastforce
  obtain r2 g2 where s2: "read_elem0 dflt (dn_id (last path)) prior g1 = (r2, g2)" by fastforce
  have t1: "read_elem0 dflt (dn_id (hd path)) prior (ensure_prior dflt prior i g) = (r1, ensure_prior dflt prior i g1)"
    using read_elem0_ensure [of dflt "dn_id (hd path)" prior i g] s1 by simp
  have t2: "read_elem0 dflt (dn_id (last path)) prior (ensure_prior dflt prior i g1) = (r2, ensure_prior dflt prior i g2)"
    using read_elem0_ensure [of dflt "dn_id (last path)" prior i g1] s2 by simp
  show ?thesis
  proof (cases r1)
    case (Inl e)
    with True s1 t1 show ?thesis by (simp add: score_path_def)
  next
    case (Inr p0)
    note i1 = this
    show ?thesis
    proof (cases r2)
      case (Inl e)
      with True s1 t1 s2 t2 i1 show ?thesis by (simp add: score_path_def)
    next
      case (Inr pn)
      with True s1 t1 s2 t2 i1 show ?thesis
        by (simp add: score_path_def Let_def visit_path_ensure [OF assms])
    qed
  qed
qed

lemma score_paths_ensure:
  assumes "count \<noteq> prior" "confidence \<noteq> prior"
  shows "score_paths dflt prior count confidence r2r (ensure_prior dflt prior i g) =
     (fst (score_paths dflt prior count confidence r2r g),
      ensure_prior dflt prior i (snd (score_paths dflt prior count confidence r2r g)))"
proof (induction r2r arbitrary: g)
  case Nil
  show ?case by simp
next
  case (Cons p ps)
  obtain e1 g1 where s1: "score_path dflt prior count confidence p g = (e1, g1)" by fastforce
  have t1: "score_path dflt prior count confidence p (ensure_prior dflt prior i g) = (e1, ensure_prior dflt prior i g1)"
    using score_path_ensure [OF assms, of dflt p i g] s1 by simp
  show ?case
  proof (cases e1)
    case (Some e)
    with s1 t1 show ?thesis by simp
  next
    case None
    with s1 t1 Cons.IH [of g1] show ?thesis by simp
  qed
qed

lemma score_paths_ensures:
  assumes "count \<noteq> prior" "confidence \<noteq> prior"
  shows "score_paths dflt prior count confidence r2r (fold (ensure_prior dflt prior) I g) =
     (fst (score_paths dflt prior count confidence r2r g),
      fold (ensure_prior dflt prior) I (snd (score_paths dflt prior count confidence r2r g)))"
proof (induction I rule: rev_induct)
  case Nil
  show ?case by simp
next
  case (snoc i I)
  show ?case by (simp add: score_paths_ensure [OF assms] snoc.IH)
qed

lemma reset_all_lookup:
  "i < length (nodes g) \<Longrightarrow> fmlookup (properties (nodes (reset_all count confidence g) ! i)) k =
     (if k = count \<or> k = confidence then Some [0] else fmlookup (properties (nodes g ! i)) k)"
  "i < length (nodes g) \<Longrightarrow> Node_id (nodes (reset_all count confidence g) ! i) = Node_id (nodes g ! i)"
  by (simp_all add: reset_all_nodes reset_node_lookup)

lemma reset_all_idem:
  "reset_all count confidence (reset_all count confidence g) = reset_all count confidence g"
  by (rule graph_eqI) (simp_all add: reset_all_nodes(1,2) reset_all_lookup)

lemma reset_all_ensure:
  "count \<noteq> prior \<Longrightarrow> confidence \<noteq> prior \<Longrightarrow>
   reset_all count confidence (ensure_prior dflt prior j g) =
   ensure_prior dflt prior j (reset_all count confidence g)"
  by (rule graph_eqI) (auto simp: reset_all_nodes(1,2) reset_all_lookup ensure_prior_simps)

lemma reset_all_add_elem0:
  "k = count \<or> k = confidence \<Longrightarrow>
   reset_all count confidence (snd (add_elem0 dflt j k x g)) = reset_all count confidence g"
  by (rule graph_eqI) (auto simp: reset_all_nodes(1,2) reset_all_lookup add_elem0_simps)

lemma reset_all_frame:
  assumes "frame S dflt prior count confidence a b" and "prior = count \<or> prior = confidence"
  shows "reset_all count confidence b = reset_all count confidence a"
proof (rule graph_eqI)
  show "length (nodes (reset_all count confidence b)) = length (nodes (reset_all count confidence a))"
    "edges (reset_all count confidence b) = edges (reset_all count confidence a)"
    using assms(1) by (simp_all add: frame_def reset_all_nodes)
next
  fix i assume "i < length (nodes (reset_all count confidence b))"
  with assms(1) have i: "i < length (nodes a)" "i < length (nodes b)"
    by (simp_all add: frame_def reset_all_nodes)
  with assms(1) show "Node_id (nodes (reset_all count confidence b) ! i) = Node_id (nodes (reset_all count confidence a) ! i)"
    by (simp add: frame_def reset_all_lookup)
  fix k
  show "fmlookup (properties (nodes (reset_all count confidence b) ! i)) k =
      fmlookup (properties (nodes (reset_all count confidence a) ! i)) k"
  proof (cases "k = count \<or> k = confidence")
    case True
    with i show ?thesis by (simp add: reset_all_lookup)
  next
    case False
    with assms i have "fmlookup (properties (nodes b ! i)) k = fmlookup (properties (nodes a ! i)) k"
      unfolding frame_def by blast
    with i show ?thesis by (simp add: reset_all_lookup)
  qed
qed

lemma fold_ensure_prior_length:
  "length (nodes (fold (ensure_prior dflt prior) I g)) = length (nodes g)"
  by (induction I arbitrary: g) (simp_all add: ensure_prior_simps)

lemma fold_ensure_prior_id:
  "\<forall>i \<in> set I. i < length (nodes g) \<longrightarrow> fmlookup (properties (nodes g ! i)) prior \<noteq> None
   \<Longrightarrow> fold (ensure_prior dflt prior) I g = g"
  by (induction I) (simp_all add: ensure_prior_id)

lemma installed_read_elem0:
  assumes ne: "count \<noteq> prior" "confidence \<noteq> prior"
    and q: "installed dflt prior count confidence a x" and rd: "read_elem0 dflt j prior x = (r, y)"
  shows "installed dflt prior count confidence a y"
proof -
  from q obtain I where I: "reset_all count confidence x = fold (ensure_prior dflt prior) I a"
    "\<forall>i \<in> set I. i < length (nodes x) \<longrightarrow> fmlookup (properties (nodes x ! i)) prior \<noteq> None"
    unfolding installed_def by blast
  from rd have y: "y = ensure_prior dflt prior j x" by (simp add: read_elem0_eq)
  have "reset_all count confidence y = fold (ensure_prior dflt prior) (I @ [j]) a"
    by (simp add: y reset_all_ensure [OF ne] I(1))
  moreover have "\<forall>i \<in> set (I @ [j]). i < length (nodes y) \<longrightarrow> fmlookup (properties (nodes y ! i)) prior \<noteq> None"
    using I(2) by (auto simp: y ensure_prior_simps)
  ultimately show ?thesis unfolding installed_def by blast
qed

lemma installed_add_elem0:
  assumes ne: "count \<noteq> prior" "confidence \<noteq> prior" and k: "k = count \<or> k = confidence"
    and q: "installed dflt prior count confidence a x" and ad: "add_elem0 dflt j k v x = (r, y)"
  shows "installed dflt prior count confidence a y"
proof -
  from q obtain I where I: "reset_all count confidence x = fold (ensure_prior dflt prior) I a"
    "\<forall>i \<in> set I. i < length (nodes x) \<longrightarrow> fmlookup (properties (nodes x ! i)) prior \<noteq> None"
    unfolding installed_def by blast
  from ad have y: "y = snd (add_elem0 dflt j k v x)" by simp
  have "reset_all count confidence y = fold (ensure_prior dflt prior) I a"
    by (simp add: y reset_all_add_elem0 [OF k] I(1))
  moreover have "\<forall>i \<in> set I. i < length (nodes y) \<longrightarrow> fmlookup (properties (nodes y ! i)) prior \<noteq> None"
    using I(2) ne k by (auto simp: y add_elem0_simps)
  ultimately show ?thesis unfolding installed_def by blast
qed

lemma reset_node_strip:
  "reset_node count confidence (strip_node count confidence n) = reset_node count confidence n"
proof -
  have "fmupd confidence (Property1 0) (fmupd count (Property1 0) (fmdrop confidence (fmdrop count (properties n))))
      = fmupd confidence (Property1 0) (fmupd count (Property1 0) (properties n))"
    by (rule fmap_ext) simp
  then show ?thesis by (simp add: reset_node_def strip_node_def)
qed

lemma reset_all_strip:
  "reset_all count confidence (strip_all count confidence g) = reset_all count confidence g"
  by (simp add: reset_all_def strip_all_def reset_node_strip)

lemma has_prior_read_elem0:
  "read_elem0 dflt i k g = (r, g') \<Longrightarrow> has_prior prior j g \<Longrightarrow> has_prior prior j g'"
  unfolding read_elem0_def map_index_def has_prior_def
  by (auto split: if_splits option.splits list.splits simp: nodes_set_properties)

lemma has_prior_add_elem0:
  "add_elem0 dflt i k x g = (r, g') \<Longrightarrow> has_prior prior j g \<Longrightarrow> has_prior prior j g'"
  unfolding add_elem0_def map_index_def has_prior_def
  by (auto split: if_splits option.splits list.splits simp: nodes_set_properties)

lemma has_prior_read_ok:
  "read_elem0 dflt i prior g = (Inr v, g') \<Longrightarrow> has_prior prior i g'"
  unfolding read_elem0_def map_index_def has_prior_def
  by (auto split: if_splits option.splits list.splits simp: nodes_set_properties)

lemma has_prior_visit_path:
  assumes "visit_path dflt count confidence score ds g = (r, g')" and "has_prior prior j g"
  shows "has_prior prior j g'"
proof (rule visit_path_invariant [OF assms(1), of "has_prior prior j", OF assms(2)])
  fix i k x a r b
  assume "has_prior prior j a" "add_elem0 dflt i k x a = (r, b)"
  then show "has_prior prior j b" using has_prior_add_elem0 by blast
qed

lemma has_prior_score_paths:
  assumes "score_paths dflt prior count confidence r2r g = (r, g')" and "has_prior prior j g"
  shows "has_prior prior j g'"
proof (rule score_paths_invariant [OF assms(1), of "has_prior prior j", OF assms(2)])
  fix i a r b
  assume "has_prior prior j a" "read_elem0 dflt i prior a = (r, b)"
  then show "has_prior prior j b" using has_prior_read_elem0 by blast
next
  fix i k x a r b
  assume "has_prior prior j a" "add_elem0 dflt i k x a = (r, b)"
  then show "has_prior prior j b" using has_prior_add_elem0 by blast
qed

lemma has_prior_score_path:
  assumes run: "score_path dflt prior count confidence path g = (None, g')" and len: "2 \<le> length path"
  shows "has_prior prior (dn_id (hd path)) g' \<and> has_prior prior (dn_id (last path)) g'"
proof -
  from len have pos: "real (length path) - 1 > 0" by simp
  obtain r1 g1 where s1: "read_elem0 dflt (dn_id (hd path)) prior g = (r1, g1)" by fastforce
  obtain r2 g2 where s2: "read_elem0 dflt (dn_id (last path)) prior g1 = (r2, g2)" by fastforce
  from run pos s1 obtain p0 where r1: "r1 = Inr p0"
    by (cases r1) (simp_all add: score_path_def)
  from run pos s1 s2 r1 obtain pn where r2: "r2 = Inr pn"
    by (cases r2) (simp_all add: score_path_def)
  from run pos s1 s2 r1 r2 obtain sc where
    v: "visit_path dflt count confidence sc path g2 = (None, g')"
    by (simp add: score_path_def Let_def)
  have "has_prior prior (dn_id (hd path)) g1" using s1 r1 has_prior_read_ok by blast
  then have h: "has_prior prior (dn_id (hd path)) g2" using s2 has_prior_read_elem0 by blast
  have l: "has_prior prior (dn_id (last path)) g2" using s2 r2 has_prior_read_ok by blast
  from has_prior_visit_path [OF v h] has_prior_visit_path [OF v l] show ?thesis by simp
qed

lemma score_paths_creates:
  assumes "score_paths dflt prior count confidence r2r g = (None, g')"
    and "path \<in> set r2r" and "2 \<le> length path"
  shows "has_prior prior (dn_id (hd path)) g' \<and> has_prior prior (dn_id (last path)) g'"
  using assms
proof (induction r2r arbitrary: g)
  case Nil
  then show ?case by simp
next
  case (Cons p ps)
  obtain e1 g1 where s1: "score_path dflt prior count confidence p g = (e1, g1)" by fastforce
  with Cons.prems(1) have e1: "e1 = None" by (cases e1) simp_all
  with Cons.prems(1) s1 have run': "score_paths dflt prior count confidence ps g1 = (None, g')" by simp
  show ?case
  proof (cases "path = p")
    case True
    from has_prior_score_path [OF s1 [unfolded e1]] Cons.prems(3) True
    have "has_prior prior (dn_id (hd path)) g1 \<and> has_prior prior (dn_id (last path)) g1" by simp
    with has_prior_score_paths [OF run'] show ?thesis by blast
  next
    case False
    with Cons.prems(2) have "path \<in> set ps" by simp
    from Cons.IH [OF run' this Cons.prems(3)] show ?thesis .
  qed
qed

section \<open>The scorer: reset, single-edge path, frame, repeated runs\<close>

text \<open>
  Claim C7. After \<^verbatim>\<open>calculate_node_importance\<close> has run (whether it returned or threw), every
  node of the graph that is on no path with at least one edge has \<open>count = [0]\<close> and
  \<open>confidence = [0]\<close>; the first loop sets both entries to \<open>[0]\<close> on every node; and a
  path \<open>P\<close> with \<open>|P| - 1 \<le> 0\<close> is skipped: the graph is returned as it was.
\<close>

theorem scorer_reset:
  "(i < no_of_nodes g \<and> (\<forall>path \<in> set r2r. 2 \<le> length path \<longrightarrow> i \<notin> dn_id ` set path) \<longrightarrow>
      prop_at (snd (calculate_node_importance dflt r2r prior count confidence g)) i count = Some [0] \<and>
      prop_at (snd (calculate_node_importance dflt r2r prior count confidence g)) i confidence = Some [0])
   \<and> (\<forall>j < no_of_nodes g.
        prop_at (reset_all count confidence g) j count = Some [0] \<and>
        prop_at (reset_all count confidence g) j confidence = Some [0])
   \<and> (real (length path) - 1 \<le> 0 \<longrightarrow> score_path dflt prior count confidence path g = (None, g))"
proof (intro conjI impI allI)
  show "score_path dflt prior count confidence path g = (None, g)" if "real (length path) - 1 \<le> 0"
    using that by (simp add: score_path_def)
next
  fix j assume "j < no_of_nodes g"
  then show "prop_at (reset_all count confidence g) j count = Some [0]"
    and "prop_at (reset_all count confidence g) j confidence = Some [0]"
    by (simp_all add: prop_at_def no_of_nodes_def reset_all_nodes reset_node_lookup)
next
  assume a: "i < no_of_nodes g \<and> (\<forall>path \<in> set r2r. 2 \<le> length path \<longrightarrow> i \<notin> dn_id ` set path)"
  obtain e g' where run: "score_paths dflt prior count confidence r2r (reset_all count confidence g) = (e, g')"
    by fastforce
  have len: "length (nodes g') = length (nodes g)"
    using length_score_paths [OF run] by (simp add: reset_all_nodes)
  from a have "i \<notin> visited r2r" by (auto simp: visited_def)
  from untouched_score_paths [OF run this] a
  have "nodes g' ! i = reset_node count confidence (nodes g ! i)"
    by (simp add: reset_all_nodes no_of_nodes_def)
  with a len run
  show "prop_at (snd (calculate_node_importance dflt r2r prior count confidence g)) i count = Some [0]"
    and "prop_at (snd (calculate_node_importance dflt r2r prior count confidence g)) i confidence = Some [0]"
    by (simp_all add: calculate_node_importance_def prop_at_def no_of_nodes_def reset_node_lookup)
qed

theorem scorer_reset_witness:
  "(1::nat) < no_of_nodes S1_graph
   \<and> (1::nat) \<notin> dn_id ` set [\<lparr>dn_id = 0, dn_weight = 0\<rparr>, \<lparr>dn_id = 0, dn_weight = 1\<rparr>]
   \<and> prop_at (snd (calculate_node_importance []
         [[\<lparr>dn_id = 0, dn_weight = 0\<rparr>, \<lparr>dn_id = 0, dn_weight = 1\<rparr>], [\<lparr>dn_id = 1, dn_weight = 0\<rparr>]]
         ''prior'' ''count'' ''confidence'' S1_graph)) 1 ''count'' = Some [0]
   \<and> prop_at (snd (calculate_node_importance []
         [[\<lparr>dn_id = 0, dn_weight = 0\<rparr>, \<lparr>dn_id = 0, dn_weight = 1\<rparr>], [\<lparr>dn_id = 1, dn_weight = 0\<rparr>]]
         ''prior'' ''count'' ''confidence'' S1_graph)) 1 ''confidence'' = Some [0]
   \<and> prop_at (reset_all ''count'' ''confidence'' S1_graph) 0 ''count'' = Some [0]
   \<and> real (length [\<lparr>dn_id = 1, dn_weight = 0\<rparr>]) - 1 \<le> 0
   \<and> score_path [] ''prior'' ''count'' ''confidence'' [\<lparr>dn_id = 1, dn_weight = 0\<rparr>] S1_graph = (None, S1_graph)"
proof -
  have n: "no_of_nodes S1_graph = 2" by (simp add: no_of_nodes_def S1_graph_def)
  show ?thesis
    using scorer_reset [of 1 S1_graph
        "[[\<lparr>dn_id = 0, dn_weight = 0\<rparr>, \<lparr>dn_id = 0, dn_weight = 1\<rparr>], [\<lparr>dn_id = 1, dn_weight = 0\<rparr>]]"
        "[]" "''prior''" "''count''" "''confidence''" "[\<lparr>dn_id = 1, dn_weight = 0\<rparr>]"]
    by (simp add: n)
qed

text \<open>
  Claim C2. On a graph whose distinct nodes \<open>a\<close> and \<open>b\<close> carry the strictly positive priors
  \<open>p_a\<close> and \<open>p_b\<close>, \<^verbatim>\<open>calculate_node_importance\<close> with the single path
  \<open>[(a, 0), (b, w)]\<close> returns normally; the first loop puts \<open>count[0]\<close> and
  \<open>confidence[0]\<close> at 0 on both nodes, and the call leaves
  \<open>confidence[0] = 0 + exp (- (w - ln (sqrt p_a) - ln (sqrt p_b)) / 1)\<close> and
  \<open>count[0] = 0 + 1\<close> on each of them. The three property names are different names.
\<close>

theorem single_edge_path:
  assumes ab: "a \<noteq> b" and a: "a < no_of_nodes g" and b: "b < no_of_nodes g"
    and pa: "prop_at g a prior = Some (p_a # ra)" and pb: "prop_at g b prior = Some (p_b # rb)"
    and pos: "0 < p_a" "0 < p_b"
    and names: "prior \<noteq> count" "prior \<noteq> confidence" "count \<noteq> confidence"
  shows "fst (calculate_node_importance dflt [[\<lparr>dn_id = a, dn_weight = 0\<rparr>, \<lparr>dn_id = b, dn_weight = w\<rparr>]]
            prior count confidence g) = None
    \<and> prop_at (reset_all count confidence g) a confidence = Some [0]
    \<and> prop_at (reset_all count confidence g) b confidence = Some [0]
    \<and> prop_at (reset_all count confidence g) a count = Some [0]
    \<and> prop_at (reset_all count confidence g) b count = Some [0]
    \<and> prop_at (snd (calculate_node_importance dflt [[\<lparr>dn_id = a, dn_weight = 0\<rparr>, \<lparr>dn_id = b, dn_weight = w\<rparr>]]
            prior count confidence g)) a confidence
        = Some [0 + exp (- (w - ln (sqrt p_a) - ln (sqrt p_b)) / 1)]
    \<and> prop_at (snd (calculate_node_importance dflt [[\<lparr>dn_id = a, dn_weight = 0\<rparr>, \<lparr>dn_id = b, dn_weight = w\<rparr>]]
            prior count confidence g)) b confidence
        = Some [0 + exp (- (w - ln (sqrt p_a) - ln (sqrt p_b)) / 1)]
    \<and> prop_at (snd (calculate_node_importance dflt [[\<lparr>dn_id = a, dn_weight = 0\<rparr>, \<lparr>dn_id = b, dn_weight = w\<rparr>]]
            prior count confidence g)) a count = Some [0 + 1]
    \<and> prop_at (snd (calculate_node_importance dflt [[\<lparr>dn_id = a, dn_weight = 0\<rparr>, \<lparr>dn_id = b, dn_weight = w\<rparr>]]
            prior count confidence g)) b count = Some [0 + 1]"
proof -
  define g0 where "g0 = reset_all count confidence g"
  define sc where "sc = exp (- (w - ln (sqrt p_a) - ln (sqrt p_b)) / 1)"
  define g1 where "g1 = set_properties a (fmupd count [0 + 1] (properties (nodes g0 ! a))) g0"
  define g2 where "g2 = set_properties a (fmupd confidence [0 + sc] (properties (nodes g1 ! a))) g1"
  define g3 where "g3 = set_properties b (fmupd count [0 + 1] (properties (nodes g2 ! b))) g2"
  define g4 where "g4 = set_properties b (fmupd confidence [0 + sc] (properties (nodes g3 ! b))) g3"
  from a b have la: "a < length (nodes g)" and lb: "b < length (nodes g)"
    by (simp_all add: no_of_nodes_def)
  have l0: "length (nodes g0) = length (nodes g)" by (simp add: g0_def reset_all_nodes)
  have l1: "length (nodes g1) = length (nodes g)" by (simp add: g1_def nodes_set_properties l0)
  have l2: "length (nodes g2) = length (nodes g)" by (simp add: g2_def nodes_set_properties l1)
  have l3: "length (nodes g3) = length (nodes g)" by (simp add: g3_def nodes_set_properties l2)
  have l4: "length (nodes g4) = length (nodes g)" by (simp add: g4_def nodes_set_properties l3)
  have p0: "fmlookup (properties (nodes g0 ! i)) k =
      (if k = count \<or> k = confidence then Some [0] else fmlookup (properties (nodes g ! i)) k)"
    if "i < length (nodes g)" for i k
    using that by (simp add: g0_def reset_all_nodes reset_node_lookup)
  have p1: "properties (nodes g1 ! i) = (if i = a then fmupd count [0 + 1] (properties (nodes g0 ! a))
      else properties (nodes g0 ! i))" if "i < length (nodes g)" for i
    using that by (simp add: g1_def nodes_set_properties l0)
  have p2: "properties (nodes g2 ! i) = (if i = a then fmupd confidence [0 + sc] (properties (nodes g1 ! a))
      else properties (nodes g1 ! i))" if "i < length (nodes g)" for i
    using that by (simp add: g2_def nodes_set_properties l1)
  have p3: "properties (nodes g3 ! i) = (if i = b then fmupd count [0 + 1] (properties (nodes g2 ! b))
      else properties (nodes g2 ! i))" if "i < length (nodes g)" for i
    using that by (simp add: g3_def nodes_set_properties l2)
  have p4: "properties (nodes g4 ! i) = (if i = b then fmupd confidence [0 + sc] (properties (nodes g3 ! b))
      else properties (nodes g3 ! i))" if "i < length (nodes g)" for i
    using that by (simp add: g4_def nodes_set_properties l3)
  from pa la have qa: "fmlookup (properties (nodes g0 ! a)) prior = Some (p_a # ra)"
    using names by (simp add: p0 prop_at_def)
  from pb lb have qb: "fmlookup (properties (nodes g0 ! b)) prior = Some (p_b # rb)"
    using names by (simp add: p0 prop_at_def)
  have r1: "read_elem0 dflt a prior g0 = (Inr p_a, g0)"
    by (rule read_elem0_present [OF _ qa]) (simp add: l0 la)
  have r2: "read_elem0 dflt b prior g0 = (Inr p_b, g0)"
    by (rule read_elem0_present [OF _ qb]) (simp add: l0 lb)
  have s1: "add_elem0 dflt a count 1 g0 = (None, g1)"
    unfolding g1_def by (rule add_elem0_present) (simp_all add: l0 la p0)
  have s2: "add_elem0 dflt a confidence sc g1 = (None, g2)"
    unfolding g2_def by (rule add_elem0_present) (simp_all add: l1 la p1 p0 names)
  have s3: "add_elem0 dflt b count 1 g2 = (None, g3)"
    unfolding g3_def by (rule add_elem0_present) (use ab in \<open>simp_all add: l2 lb p2 p1 p0\<close>)
  have s4: "add_elem0 dflt b confidence sc g3 = (None, g4)"
    unfolding g4_def by (rule add_elem0_present) (use ab in \<open>simp_all add: l3 lb p3 p2 p1 p0 names\<close>)
  define path where "path = [\<lparr>dn_id = a, dn_weight = 0\<rparr>, \<lparr>dn_id = b, dn_weight = w\<rparr>]"
  have v: "visit_path dflt count confidence sc path g0 = (None, g4)"
    by (simp add: path_def s1 s2 s3 s4)
  have hl: "dn_id (hd path) = a" "dn_id (last path) = b" "real (length path) - 1 > 0"
    by (simp_all add: path_def)
  have sp: "score_path dflt prior count confidence path g0 =
      visit_path dflt count confidence
        (exp (- ((dn_weight (last path) - ln (sqrt p_a) - ln (sqrt p_b)) / (real (length path) - 1)))) path g0"
    unfolding score_path_def Let_def hl using hl(3) by (simp add: r1 r2)
  have "exp (- ((dn_weight (last path) - ln (sqrt p_a) - ln (sqrt p_b)) / (real (length path) - 1))) = sc"
    by (simp add: sc_def path_def)
  with sp v have sp': "score_path dflt prior count confidence path g0 = (None, g4)" by simp
  have run: "calculate_node_importance dflt [[\<lparr>dn_id = a, dn_weight = 0\<rparr>, \<lparr>dn_id = b, dn_weight = w\<rparr>]]
            prior count confidence g = (None, g4)"
    unfolding calculate_node_importance_def g0_def [symmetric] path_def [symmetric]
    by (simp add: sp')
  show ?thesis
    unfolding run sc_def [symmetric]
    using ab names la lb
    by (simp add: prop_at_def l4 p4 p3 p2 p1 p0 g0_def [symmetric] l0)
qed


theorem single_edge_path_witness:
  "fst (calculate_node_importance [] [S1_path] ''prior'' ''count'' ''confidence'' S1_graph) = None
   \<and> prop_at (snd (calculate_node_importance [] [S1_path] ''prior'' ''count'' ''confidence'' S1_graph))
         0 ''confidence'' = Some [1]
   \<and> prop_at (snd (calculate_node_importance [] [S1_path] ''prior'' ''count'' ''confidence'' S1_graph))
         1 ''confidence'' = Some [1]
   \<and> prop_at (snd (calculate_node_importance [] [S1_path] ''prior'' ''count'' ''confidence'' S1_graph))
         0 ''count'' = Some [1]
   \<and> prop_at (snd (calculate_node_importance [] [S1_path] ''prior'' ''count'' ''confidence'' S1_graph))
         1 ''count'' = Some [1]"
proof -
  have h: "prop_at S1_graph 0 ''prior'' = Some [exp 2]" "prop_at S1_graph 1 ''prior'' = Some [exp 2]"
    by (simp_all add: prop_at_def S1_graph_def)
  have l: "ln (sqrt (exp 2)) = (1::real)" by (simp add: ln_sqrt)
  show ?thesis
    using single_edge_path [where a = 0 and b = 1 and g = S1_graph and prior = "''prior''"
        and count = "''count''" and confidence = "''confidence''" and p_a = "exp 2" and ra = "[]"
        and p_b = "exp 2" and rb = "[]" and dflt = "[]" and w = 2, OF _ _ _ h(1) h(2)]
    by (simp add: l no_of_nodes_S1_graph S1_path_def)
qed

text \<open>
  Claim C10, as amended. Whatever the outcome of \<^verbatim>\<open>calculate_node_importance\<close> (return or
  exception), the graph keeps the number of its nodes, their ids and its edges, and on every node a property whose name
  differs from \<open>count\<close> and \<open>confidence\<close> is left as it was, with one exception: on a node that
  lacks \<open>prior\<close> and is the first or last entry of a path with at least one edge, the entry
  \<open>prior\<close> can be created, default-constructed (\<^verbatim>\<open>properties[prior]\<close> is
  \<^verbatim>\<open>std::map::operator[]\<close>); when the call returns normally, every first and last entry of such
  a path has an entry \<open>prior\<close> afterwards. The entries \<open>count\<close> and \<open>confidence\<close> are replaced on
  every node: afterwards both are present with dimension 1, and nothing of what they were
  before is kept, since the call on the graph without its \<open>count\<close> and \<open>confidence\<close> entries has
  the same outcome and leaves the same graph.
\<close>

theorem scorer_frame:
  "no_of_nodes (snd (calculate_node_importance dflt r2r prior count confidence g)) = no_of_nodes g
   \<and> edges (snd (calculate_node_importance dflt r2r prior count confidence g)) = edges g
   \<and> (\<forall>i < no_of_nodes g.
        (\<forall>k. k \<noteq> count \<longrightarrow> k \<noteq> confidence \<longrightarrow>
           prop_at (snd (calculate_node_importance dflt r2r prior count confidence g)) i k = prop_at g i k
           \<or> (k = prior \<and> prop_at g i k = None
              \<and> prop_at (snd (calculate_node_importance dflt r2r prior count confidence g)) i k = Some dflt
              \<and> (\<exists>path \<in> set r2r. 2 \<le> length path \<and> (i = dn_id (hd path) \<or> i = dn_id (last path)))))
        \<and> (\<exists>c. prop_at (snd (calculate_node_importance dflt r2r prior count confidence g)) i count = Some [c])
        \<and> (\<exists>c. prop_at (snd (calculate_node_importance dflt r2r prior count confidence g)) i confidence = Some [c])
        \<and> Node_id (nodes (snd (calculate_node_importance dflt r2r prior count confidence g)) ! i) = Node_id (nodes g ! i))
   \<and> (fst (calculate_node_importance dflt r2r prior count confidence g) = None \<longrightarrow>
        (\<forall>path \<in> set r2r. 2 \<le> length path \<longrightarrow>
           prop_at (snd (calculate_node_importance dflt r2r prior count confidence g)) (dn_id (hd path)) prior \<noteq> None
           \<and> prop_at (snd (calculate_node_importance dflt r2r prior count confidence g)) (dn_id (last path)) prior \<noteq> None))
   \<and> calculate_node_importance dflt r2r prior count confidence (strip_all count confidence g)
       = calculate_node_importance dflt r2r prior count confidence g"
proof -
  obtain e g' where run: "score_paths dflt prior count confidence r2r (reset_all count confidence g) = (e, g')"
    by fastforce
  then have res: "snd (calculate_node_importance dflt r2r prior count confidence g) = g'"
    and out: "fst (calculate_node_importance dflt r2r prior count confidence g) = e"
    by (simp_all add: calculate_node_importance_def)
  have fr: "frame (endpoints r2r) dflt prior count confidence (reset_all count confidence g) g'"
    by (rule frame_score_paths [OF run])
  have sc: "scalars count confidence g'"
    by (rule scalars_score_paths [OF run scalars_reset_all])
  have len: "length (nodes g') = length (nodes g)"
    using fr by (simp add: frame_def reset_all_nodes)
  have ed: "edges g' = edges g"
    using fr by (simp add: frame_def reset_all_nodes)
  have pr: "prop_at g' i k = prop_at g i k
      \<or> (k = prior \<and> prop_at g i k = None \<and> prop_at g' i k = Some dflt
         \<and> (\<exists>path \<in> set r2r. 2 \<le> length path \<and> (i = dn_id (hd path) \<or> i = dn_id (last path))))"
    if i: "i < length (nodes g)" and k: "k \<noteq> count" "k \<noteq> confidence" for i k
  proof -
    from fr i k have "fmlookup (properties (nodes g' ! i)) k = fmlookup (properties (nodes g ! i)) k \<or>
           (k = prior \<and> i \<in> endpoints r2r \<and> fmlookup (properties (nodes g ! i)) k = None \<and>
            fmlookup (properties (nodes g' ! i)) k = Some dflt)"
      by (simp add: frame_def reset_all_nodes reset_node_lookup)
    moreover have "\<exists>path \<in> set r2r. 2 \<le> length path \<and> (i = dn_id (hd path) \<or> i = dn_id (last path))"
      if "i \<in> endpoints r2r"
      using that by (auto simp: endpoints_def)
    ultimately show ?thesis using i len by (auto simp: prop_at_def)
  qed
  have cc: "(\<exists>c. prop_at g' i count = Some [c]) \<and> (\<exists>c. prop_at g' i confidence = Some [c])"
    if i: "i < length (nodes g)" for i
    using sc i len by (simp add: scalars_def prop_at_def)
  have ni: "Node_id (nodes g' ! i) = Node_id (nodes g ! i)" if i: "i < length (nodes g)" for i
    using fr i by (simp add: frame_def reset_all_nodes(1) reset_all_lookup(2))
  have cr: "prop_at g' (dn_id (hd path)) prior \<noteq> None \<and> prop_at g' (dn_id (last path)) prior \<noteq> None"
    if "e = None" "path \<in> set r2r" "2 \<le> length path" for path
    using score_paths_creates [OF run [unfolded that(1)] that(2,3)]
    by (simp add: has_prior_def prop_at_def)
  have st: "calculate_node_importance dflt r2r prior count confidence (strip_all count confidence g)
       = calculate_node_importance dflt r2r prior count confidence g"
    by (simp add: calculate_node_importance_def reset_all_strip)
  show ?thesis
    unfolding res out using len ed pr cc ni cr st by (simp add: no_of_nodes_def)
qed

theorem scorer_frame_witness:
  "prop_at stale_graph 0 ''count'' = Some [7, 8, 9]
   \<and> prop_at stale_graph 1 ''prior'' = None
   \<and> fst (calculate_node_importance [1] [S1_path] ''prior'' ''count'' ''confidence'' stale_graph) = None
   \<and> prop_at (snd (calculate_node_importance [1] [S1_path] ''prior'' ''count'' ''confidence'' stale_graph)) 0 ''prior''
       = Some [exp 2]
   \<and> prop_at (snd (calculate_node_importance [1] [S1_path] ''prior'' ''count'' ''confidence'' stale_graph)) 1 ''prior''
       = Some [1]
   \<and> (\<exists>c. prop_at (snd (calculate_node_importance [1] [S1_path] ''prior'' ''count'' ''confidence'' stale_graph)) 0
           ''count'' = Some [c])
   \<and> calculate_node_importance [1] [S1_path] ''prior'' ''count'' ''confidence''
         (strip_all ''count'' ''confidence'' stale_graph)
       = calculate_node_importance [1] [S1_path] ''prior'' ''count'' ''confidence'' stale_graph"
proof -
  define g' where "g' = snd (calculate_node_importance [1] [S1_path] ''prior'' ''count'' ''confidence'' stale_graph)"
  have n: "no_of_nodes stale_graph = 2" by (simp add: no_of_nodes_def stale_graph_def)
  have c0: "prop_at stale_graph 0 ''count'' = Some [7, 8, 9]"
    and p0: "prop_at stale_graph 0 ''prior'' = Some [exp 2]"
    and p1: "prop_at stale_graph 1 ''prior'' = None"
    by (simp_all add: prop_at_def stale_graph_def)
  have ok: "fst (calculate_node_importance [1] [S1_path] ''prior'' ''count'' ''confidence'' stale_graph) = None"
    by (simp add: stale_graph_def S1_path_def calculate_node_importance_def reset_all_def
        reset_node_def Property1_def score_path_def read_elem0_def add_elem0_def map_index_def
        set_properties_def Let_def)
  have ends: "S1_path \<in> set [S1_path]" "2 \<le> length S1_path" "dn_id (hd S1_path) = 0" "dn_id (last S1_path) = 1"
    by (simp_all add: S1_path_def)
  note T = scorer_frame [of "[1]" "[S1_path]" "''prior''" "''count''" "''confidence''" stale_graph,
      folded g'_def]
  have lt: "(0::nat) < no_of_nodes stale_graph" "(1::nat) < no_of_nodes stale_graph" by (simp_all add: n)
  note F = T [THEN conjunct2, THEN conjunct2, THEN conjunct1, rule_format]
  note C = T [THEN conjunct2, THEN conjunct2, THEN conjunct2, THEN conjunct1, rule_format, OF ok ends(1,2),
      unfolded ends(3,4)]
  note S = T [THEN conjunct2, THEN conjunct2, THEN conjunct2, THEN conjunct2]
  have k: "''prior'' \<noteq> ''count''" "''prior'' \<noteq> ''confidence''" by simp_all
  from F [OF lt(1), THEN conjunct1, rule_format, OF k] p0
  have a: "prop_at g' 0 ''prior'' = Some [exp 2]" by auto
  from F [OF lt(2), THEN conjunct1, rule_format, OF k] p1 C
  have b: "prop_at g' 1 ''prior'' = Some [1]" by auto
  note c = F [OF lt(1), THEN conjunct2, THEN conjunct1]
  from c0 p1 ok a b c S show ?thesis unfolding g'_def by (intro conjI)
qed

text \<open>
  The claim as first stated fails on a node without \<open>prior\<close> at the end of a path: the
  entry is created, both when the default-constructed \<^verbatim>\<open>Property\<close> is empty (the call then
  throws, and the entry stays) and when it has one element (the call returns).
\<close>

theorem scorer_frame_counterexample:
  "prop_at bare_graph 0 ''prior'' = None
   \<and> prop_at (snd (calculate_node_importance [] [loop_path] ''prior'' ''count'' ''confidence'' bare_graph)) 0
        ''prior'' = Some []
   \<and> fst (calculate_node_importance [0] [loop_path] ''prior'' ''count'' ''confidence'' bare_graph) = None
   \<and> prop_at (snd (calculate_node_importance [0] [loop_path] ''prior'' ''count'' ''confidence'' bare_graph)) 0
        ''prior'' = Some [0]"
  by (simp add: prop_at_def bare_graph_def loop_path_def calculate_node_importance_def reset_all_def
      reset_node_def Property1_def score_path_def read_elem0_def add_elem0_def map_index_def
      set_properties_def Let_def)

text \<open>
  Claim C8. The scorer is a function of the graph, the paths and the three names, and a
  second run immediately after the first changes nothing: started on the graph that the
  first run left, it ends with the same outcome and the same graph, hence the same \<open>count\<close>
  and \<open>confidence\<close> on every node.
\<close>

theorem scorer_rerun:
  "calculate_node_importance dflt r2r prior count confidence
     (snd (calculate_node_importance dflt r2r prior count confidence g))
   = calculate_node_importance dflt r2r prior count confidence g"
proof -
  define a where "a = reset_all count confidence g"
  obtain e t where run: "score_paths dflt prior count confidence r2r a = (e, t)" by fastforce
  then have first: "calculate_node_importance dflt r2r prior count confidence g = (e, t)"
    by (simp add: calculate_node_importance_def a_def)
  have "score_paths dflt prior count confidence r2r (reset_all count confidence t) = (e, t)"
  proof (cases "prior = count \<or> prior = confidence")
    case True
    from reset_all_frame [OF frame_score_paths [OF run] True]
    have "reset_all count confidence t = a" by (simp add: a_def reset_all_idem)
    with run show ?thesis by simp
  next
    case False
    then have ne: "count \<noteq> prior" "confidence \<noteq> prior" by auto
    have "installed dflt prior count confidence a t"
    proof (rule score_paths_invariant [OF run, of "installed dflt prior count confidence a"])
      have "reset_all count confidence a = fold (ensure_prior dflt prior) [] a"
        by (simp add: a_def reset_all_idem)
      then show "installed dflt prior count confidence a a"
        unfolding installed_def by (intro exI [of _ "[]"]) simp
    next
      fix j x r y
      assume "installed dflt prior count confidence a x" "read_elem0 dflt j prior x = (r, y)"
      then show "installed dflt prior count confidence a y"
        by (rule installed_read_elem0 [OF ne])
    next
      fix j k v x r y
      assume "k = count \<or> k = confidence" "installed dflt prior count confidence a x"
        "add_elem0 dflt j k v x = (r, y)"
      then show "installed dflt prior count confidence a y"
        by (rule installed_add_elem0 [OF ne])
    qed
    then obtain I where I: "reset_all count confidence t = fold (ensure_prior dflt prior) I a"
      "\<forall>i \<in> set I. i < length (nodes t) \<longrightarrow> fmlookup (properties (nodes t ! i)) prior \<noteq> None"
      unfolding installed_def by blast
    show ?thesis
      by (simp add: I(1) score_paths_ensures [OF ne] run fold_ensure_prior_id [OF I(2)])
  qed
  then have "calculate_node_importance dflt r2r prior count confidence t = (e, t)"
    by (simp add: calculate_node_importance_def)
  then show ?thesis
    unfolding first by simp
qed

theorem scorer_rerun_witness:
  "calculate_node_importance [] [S1_path] ''prior'' ''count'' ''confidence''
     (snd (calculate_node_importance [] [S1_path] ''prior'' ''count'' ''confidence'' S1_graph))
   = calculate_node_importance [] [S1_path] ''prior'' ''count'' ''confidence'' S1_graph"
  by (rule scorer_rerun)

section \<open>The matrix projection: cells and untouched cells\<close>

lemma cell_bound:
  fixes x y z :: nat
  assumes "x < rows" "y < columns" "z < slices"
  shows "z + y * slices + x * columns * slices < rows * columns * slices"
proof -
  have "z + y * slices < (y + 1) * slices" using assms(3) by simp
  also have "\<dots> \<le> columns * slices" using assms(2) by (intro mult_le_mono1) simp
  finally have "z + y * slices + x * columns * slices < (x + 1) * (columns * slices)" by simp
  also have "\<dots> \<le> rows * (columns * slices)" using assms(1) by (intro mult_le_mono1) simp
  finally show ?thesis by (simp add: mult.assoc)
qed

lemma cell_has_pos:
  assumes "has_pos pos_key n x y z"
  shows "cell columns slices pos_key n = z + y * slices + x * columns * slices"
proof -
  have "real z + real y * real slices + real x * real columns * real slices
      = real (z + y * slices + x * columns * slices)" by simp
  then have "nat \<lfloor>real z + real y * real slices + real x * real columns * real slices\<rfloor>
      = z + y * slices + x * columns * slices"
    by (simp only: floor_of_nat nat_int)
  with assms show ?thesis by (auto simp: has_pos_def cell_def)
qed

lemma to_size_t_of_nat:
  "k < 2 ^ (8 * sizeof_size_t im) \<Longrightarrow> to_size_t im (real k) = Inr k"
proof -
  assume "k < 2 ^ (8 * sizeof_size_t im)"
  then have "int k < 2 ^ (8 * sizeof_size_t im)"
    by (metis of_nat_less_iff of_nat_numeral of_nat_power)
  then show ?thesis by (simp add: to_size_t_def)
qed

lemma as_matrix_step_ok:
  assumes p: "has_pos pos_key n x y z" and w: "has_weight weight_key n w"
    and b: "z + y * slices + x * columns * slices < length weights"
    and l: "length weights < 2 ^ (8 * sizeof_size_t im)"
  shows "as_matrix_step im columns slices weight_key pos_key n weights
      = Inr (weights[cell columns slices pos_key n := w])"
proof -
  from p obtain rest where pos: "fmlookup (properties n) pos_key = Some (real x # real y # real z # rest)"
    by (auto simp: has_pos_def)
  from w obtain wrest where wt: "fmlookup (properties n) weight_key = Some (w # wrest)"
    by (auto simp: has_weight_def)
  have fi: "flat_index (real x # real y # real z # rest) columns slices
      = Inr (real (z + y * slices + x * columns * slices))"
    by (simp add: flat_index_def Property_at_def)
  from b l have "z + y * slices + x * columns * slices < 2 ^ (8 * sizeof_size_t im)" by simp
  from to_size_t_of_nat [OF this]
  have ts: "to_size_t im (real z + real y * real slices + real x * real columns * real slices)
      = Inr (z + y * slices + x * columns * slices)" by simp
  show ?thesis
    unfolding as_matrix_step_def pos wt cell_has_pos [OF p]
    using b by (simp add: fi ts Property_at_def)
qed

lemma has_weight_unique: "has_weight weight_key n w \<Longrightarrow> has_weight weight_key n w' \<Longrightarrow> w = w'"
  by (auto simp: has_weight_def)

lemma as_matrix_loop_cells:
  assumes "\<forall>n \<in> set ns. \<exists>x y z w. has_pos pos_key n x y z \<and> has_weight weight_key n w
              \<and> z + y * slices + x * columns * slices < length weights"
    and "length weights < 2 ^ (8 * sizeof_size_t im)"
  shows "\<exists>m. as_matrix_loop im columns slices weight_key pos_key ns weights = Inr m
      \<and> length m = length weights
      \<and> (\<forall>k < length ns.
            (\<forall>j. k < j \<and> j < length ns \<longrightarrow>
                 cell columns slices pos_key (ns ! j) \<noteq> cell columns slices pos_key (ns ! k)) \<longrightarrow>
            (\<forall>w. has_weight weight_key (ns ! k) w \<longrightarrow> m ! cell columns slices pos_key (ns ! k) = w))
      \<and> (\<forall>c < length weights. (\<forall>n \<in> set ns. cell columns slices pos_key n \<noteq> c) \<longrightarrow> m ! c = weights ! c)"
  using assms
proof (induction ns arbitrary: weights)
  case Nil
  then show ?case by simp
next
  case (Cons n ns)
  from Cons.prems(1) obtain x y z w where n: "has_pos pos_key n x y z" "has_weight weight_key n w"
    "z + y * slices + x * columns * slices < length weights" by auto
  define weights' where "weights' = weights[cell columns slices pos_key n := w]"
  have st: "as_matrix_step im columns slices weight_key pos_key n weights = Inr weights'"
    unfolding weights'_def by (rule as_matrix_step_ok [OF n Cons.prems(2)])
  have len: "length weights' = length weights" by (simp add: weights'_def)
  have cn: "cell columns slices pos_key n < length weights"
    using n by (simp add: cell_has_pos [OF n(1)])
  from Cons.prems len have
    "\<forall>n \<in> set ns. \<exists>x y z w. has_pos pos_key n x y z \<and> has_weight weight_key n w
              \<and> z + y * slices + x * columns * slices < length weights'"
    "length weights' < 2 ^ (8 * sizeof_size_t im)" by simp_all
  from Cons.IH [OF this] obtain m where m:
    "as_matrix_loop im columns slices weight_key pos_key ns weights' = Inr m"
    "length m = length weights'"
    "\<forall>k < length ns.
        (\<forall>j. k < j \<and> j < length ns \<longrightarrow>
             cell columns slices pos_key (ns ! j) \<noteq> cell columns slices pos_key (ns ! k)) \<longrightarrow>
        (\<forall>w. has_weight weight_key (ns ! k) w \<longrightarrow> m ! cell columns slices pos_key (ns ! k) = w)"
    "\<forall>c < length weights'. (\<forall>n \<in> set ns. cell columns slices pos_key n \<noteq> c) \<longrightarrow> m ! c = weights' ! c"
    by blast
  have run: "as_matrix_loop im columns slices weight_key pos_key (n # ns) weights = Inr m"
    by (simp add: st m(1))
  have later: "m ! cell columns slices pos_key ((n # ns) ! k) = w'"
    if k: "k < length (n # ns)"
      and last: "\<forall>j. k < j \<and> j < length (n # ns) \<longrightarrow>
         cell columns slices pos_key ((n # ns) ! j) \<noteq> cell columns slices pos_key ((n # ns) ! k)"
      and hw: "has_weight weight_key ((n # ns) ! k) w'" for k w'
  proof (cases k)
    case 0
    have "\<forall>n' \<in> set ns. cell columns slices pos_key n' \<noteq> cell columns slices pos_key n"
    proof
      fix n' assume "n' \<in> set ns"
      then obtain j where j: "j < length ns" "ns ! j = n'" by (auto simp: in_set_conv_nth)
      from last [rule_format, of "Suc j"] 0 j
      have "cell columns slices pos_key ((n # ns) ! Suc j) \<noteq> cell columns slices pos_key ((n # ns) ! 0)"
        by simp
      with j show "cell columns slices pos_key n' \<noteq> cell columns slices pos_key n" by simp
    qed
    with m(4) cn len have "m ! cell columns slices pos_key n = weights' ! cell columns slices pos_key n"
      by simp
    also have "\<dots> = w" using cn by (simp add: weights'_def)
    also have "w = w'" using hw 0 n(2) by (simp add: has_weight_unique)
    finally show ?thesis using 0 by simp
  next
    case (Suc k')
    with k have k': "k' < length ns" by simp
    have "\<forall>j. k' < j \<and> j < length ns \<longrightarrow>
        cell columns slices pos_key (ns ! j) \<noteq> cell columns slices pos_key (ns ! k')"
    proof (intro allI impI)
      fix j assume "k' < j \<and> j < length ns"
      with last [rule_format, of "Suc j"] Suc
      have "cell columns slices pos_key ((n # ns) ! Suc j) \<noteq> cell columns slices pos_key ((n # ns) ! Suc k')"
        by simp
      then show "cell columns slices pos_key (ns ! j) \<noteq> cell columns slices pos_key (ns ! k')" by simp
    qed
    with m(3) k' hw Suc show ?thesis by simp
  qed
  have untouched: "m ! c = weights ! c"
    if c: "c < length weights" and none: "\<forall>n' \<in> set (n # ns). cell columns slices pos_key n' \<noteq> c" for c
  proof -
    from none have "\<forall>n' \<in> set ns. cell columns slices pos_key n' \<noteq> c"
      and ne: "cell columns slices pos_key n \<noteq> c" by simp_all
    with m(4) c len have "m ! c = weights' ! c" by simp
    with ne show ?thesis by (simp add: weights'_def)
  qed
  show ?case
  proof (intro exI [of _ m] conjI allI impI)
    show "as_matrix_loop im columns slices weight_key pos_key (n # ns) weights = Inr m" by (rule run)
    show "length m = length weights" using m(2) len by simp
  next
    fix k w'
    assume "k < length (n # ns)"
      and "\<forall>j. k < j \<and> j < length (n # ns) \<longrightarrow>
         cell columns slices pos_key ((n # ns) ! j) \<noteq> cell columns slices pos_key ((n # ns) ! k)"
      and "has_weight weight_key ((n # ns) ! k) w'"
    then show "m ! cell columns slices pos_key ((n # ns) ! k) = w'" by (rule later)
  next
    fix c
    assume "c < length weights" and "\<forall>n' \<in> set (n # ns). cell columns slices pos_key n' \<noteq> c"
    then show "m ! c = weights ! c" by (rule untouched)
  qed
qed

lemma S3_graph_nodes:
  "no_of_nodes S3_graph = 3"
  "has_pos ''pos'' (nodes S3_graph ! 0) 0 0 0"
  "has_pos ''pos'' (nodes S3_graph ! 1) 1 1 1"
  "has_pos ''pos'' (nodes S3_graph ! 2) 0 1 0"
  "has_weight ''weight'' (nodes S3_graph ! 0) 0.5"
  "has_weight ''weight'' (nodes S3_graph ! 1) 1.5"
  "has_weight ''weight'' (nodes S3_graph ! 2) 2.5"
  by (simp_all add: no_of_nodes_def S3_graph_def has_pos_def has_weight_def)

lemma S3_graph_cells:
  "cell 2 2 ''pos'' (nodes S3_graph ! 0) = 0"
  "cell 2 2 ''pos'' (nodes S3_graph ! 1) = 7"
  "cell 2 2 ''pos'' (nodes S3_graph ! 2) = 2"
  using cell_has_pos [OF S3_graph_nodes(2), of 2 2] cell_has_pos [OF S3_graph_nodes(3), of 2 2]
    cell_has_pos [OF S3_graph_nodes(4), of 2 2]
  by simp_all

lemma less_3_cases: "i < (3::nat) \<Longrightarrow> i = 0 \<or> i = 1 \<or> i = 2"
  by arith

lemma I5_S3_graph: "I5 2 2 2 ''weight'' ''pos'' S3_graph"
  unfolding I5_def all_set_conv_all_nth
proof (intro allI impI)
  fix i assume "i < length (nodes S3_graph)"
  then have "i < 3" using S3_graph_nodes(1) by (simp add: no_of_nodes_def)
  then consider "i = 0" | "i = 1" | "i = 2" using less_3_cases by blast
  then show "(\<exists>x y z. has_pos ''pos'' (nodes S3_graph ! i) x y z \<and> x < 2 \<and> y < 2 \<and> z < 2) \<and>
         (\<exists>w. has_weight ''weight'' (nodes S3_graph ! i) w)"
  proof cases
    case 1
    with S3_graph_nodes(2,5) show ?thesis by (intro conjI exI [of _ 0] exI [of _ "0.5"]) simp_all
  next
    case 2
    with S3_graph_nodes(3,6) show ?thesis by (intro conjI exI [of _ 1] exI [of _ "1.5"]) simp_all
  next
    case 3
    from S3_graph_nodes(4) have "has_pos ''pos'' (nodes S3_graph ! 2) 0 1 0 \<and> (0::nat) < 2 \<and> (1::nat) < 2 \<and> (0::nat) < 2"
      by simp
    then have "\<exists>x y z. has_pos ''pos'' (nodes S3_graph ! 2) x y z \<and> x < 2 \<and> y < 2 \<and> z < 2" by blast
    with 3 S3_graph_nodes(7) show ?thesis by blast
  qed
qed

text \<open>
  Claim C3, as amended. For a graph that satisfies I5 and dimensions whose product
  \<open>rows * columns * slices\<close> is representable in \<^verbatim>\<open>id_type\<close> (and \<^verbatim>\<open>std::size_t\<close> at least as
  wide), \<^verbatim>\<open>as_matrix\<close> returns a vector of length \<open>rows * columns * slices\<close>; for every node
  with position \<open>(x, y, z)\<close> and weight \<open>w\<close> whose cell is the cell of no later node, the
  entry at \<open>z + y * slices + x * columns * slices\<close> is \<open>w\<close>; and every cell that is the
  cell of no node is 0.
\<close>

theorem as_matrix_cells:
  assumes inv: "I5 rows columns slices weight_key pos_key g"
    and fits: "rows * columns * slices < 2 ^ (8 * sizeof_id_type im)"
    and wide: "sizeof_id_type im \<le> sizeof_size_t im"
  shows "\<exists>m. as_matrix im rows columns slices weight_key pos_key g = Inr m
      \<and> length m = rows * columns * slices
      \<and> (\<forall>i < no_of_nodes g. \<forall>x y z w.
            has_pos pos_key (nodes g ! i) x y z \<and> has_weight weight_key (nodes g ! i) w
            \<and> (\<forall>j. i < j \<and> j < no_of_nodes g \<longrightarrow>
                  cell columns slices pos_key (nodes g ! j) \<noteq> z + y * slices + x * columns * slices)
            \<longrightarrow> m ! (z + y * slices + x * columns * slices) = w)
      \<and> (\<forall>c < rows * columns * slices.
            (\<forall>i < no_of_nodes g. cell columns slices pos_key (nodes g ! i) \<noteq> c) \<longrightarrow> m ! c = 0)"
proof -
  define weights :: "real list" where "weights = replicate (id_type_wrap im (rows * columns * slices)) 0"
  from fits have len: "length weights = rows * columns * slices"
    by (simp add: weights_def id_type_wrap_def)
  have "(2::nat) ^ (8 * sizeof_id_type im) \<le> 2 ^ (8 * sizeof_size_t im)"
    using wide by (intro power_increasing) simp_all
  with fits have "rows * columns * slices < 2 ^ (8 * sizeof_size_t im)"
    by (rule order_less_le_trans)
  with len have small: "length weights < 2 ^ (8 * sizeof_size_t im)" by simp
  have each: "\<forall>n \<in> set (nodes g). \<exists>x y z w. has_pos pos_key n x y z \<and> has_weight weight_key n w
              \<and> z + y * slices + x * columns * slices < length weights"
  proof
    fix n assume "n \<in> set (nodes g)"
    with inv obtain x y z w where "has_pos pos_key n x y z" "x < rows" "y < columns" "z < slices"
      "has_weight weight_key n w" unfolding I5_def by blast
    with cell_bound [of x rows y columns z slices] len
    show "\<exists>x y z w. has_pos pos_key n x y z \<and> has_weight weight_key n w
              \<and> z + y * slices + x * columns * slices < length weights" by auto
  qed
  from as_matrix_loop_cells [OF each small] obtain m where m:
    "as_matrix_loop im columns slices weight_key pos_key (nodes g) weights = Inr m"
    "length m = length weights"
    "\<forall>k < length (nodes g).
        (\<forall>j. k < j \<and> j < length (nodes g) \<longrightarrow>
             cell columns slices pos_key (nodes g ! j) \<noteq> cell columns slices pos_key (nodes g ! k)) \<longrightarrow>
        (\<forall>w. has_weight weight_key (nodes g ! k) w \<longrightarrow> m ! cell columns slices pos_key (nodes g ! k) = w)"
    "\<forall>c < length weights. (\<forall>n \<in> set (nodes g). cell columns slices pos_key n \<noteq> c) \<longrightarrow> m ! c = weights ! c"
    by blast
  show ?thesis
  proof (intro exI [of _ m] conjI allI impI)
    show "as_matrix im rows columns slices weight_key pos_key g = Inr m"
      using m(1) by (simp add: as_matrix_def weights_def)
    show "length m = rows * columns * slices" using m(2) len by simp
  next
    fix i x y z w
    assume i: "i < no_of_nodes g"
      and h: "has_pos pos_key (nodes g ! i) x y z \<and> has_weight weight_key (nodes g ! i) w
            \<and> (\<forall>j. i < j \<and> j < no_of_nodes g \<longrightarrow>
                  cell columns slices pos_key (nodes g ! j) \<noteq> z + y * slices + x * columns * slices)"
    from h have c: "cell columns slices pos_key (nodes g ! i) = z + y * slices + x * columns * slices"
      by (simp add: cell_has_pos)
    from m(3) [rule_format, of i w] i h c
    show "m ! (z + y * slices + x * columns * slices) = w"
      by (simp add: no_of_nodes_def)
  next
    fix c
    assume c: "c < rows * columns * slices"
      and none: "\<forall>i < no_of_nodes g. cell columns slices pos_key (nodes g ! i) \<noteq> c"
    have "\<forall>n \<in> set (nodes g). cell columns slices pos_key n \<noteq> c"
      using none by (auto simp: in_set_conv_nth no_of_nodes_def)
    with m(4) c len have "m ! c = weights ! c" by simp
    also have "\<dots> = 0" using c len by (simp add: weights_def)
    finally show "m ! c = 0" .
  qed
qed

theorem as_matrix_cells_witness:
  "\<exists>m. as_matrix lp64 2 2 2 ''weight'' ''pos'' S3_graph = Inr m \<and> length m = 2 * 2 * 2
      \<and> m ! 7 = 1.5 \<and> m ! 1 = 0"
proof -
  have fits: "(2::nat) * 2 * 2 < 2 ^ (8 * sizeof_id_type lp64)" by (simp add: lp64_def)
  have wide: "sizeof_id_type lp64 \<le> sizeof_size_t lp64" by (simp add: lp64_def)
  from as_matrix_cells [OF I5_S3_graph fits wide] obtain m where m:
    "as_matrix lp64 2 2 2 ''weight'' ''pos'' S3_graph = Inr m"
    "length m = 2 * 2 * 2"
    "\<forall>i < no_of_nodes S3_graph. \<forall>x y z w.
            has_pos ''pos'' (nodes S3_graph ! i) x y z \<and> has_weight ''weight'' (nodes S3_graph ! i) w
            \<and> (\<forall>j. i < j \<and> j < no_of_nodes S3_graph \<longrightarrow>
                  cell 2 2 ''pos'' (nodes S3_graph ! j) \<noteq> z + y * 2 + x * 2 * 2)
            \<longrightarrow> m ! (z + y * 2 + x * 2 * 2) = w"
    "\<forall>c < 2 * 2 * 2. (\<forall>i < no_of_nodes S3_graph. cell 2 2 ''pos'' (nodes S3_graph ! i) \<noteq> c) \<longrightarrow> m ! c = 0"
    by blast
  have later: "\<forall>j. 1 < j \<and> j < no_of_nodes S3_graph \<longrightarrow> cell 2 2 ''pos'' (nodes S3_graph ! j) \<noteq> 1 + 1 * 2 + 1 * 2 * 2"
  proof (intro allI impI)
    fix j assume "1 < j \<and> j < no_of_nodes S3_graph"
    then have "j = 2" by (simp add: S3_graph_nodes(1))
    then show "cell 2 2 ''pos'' (nodes S3_graph ! j) \<noteq> 1 + 1 * 2 + 1 * 2 * 2"
      by (simp add: S3_graph_cells)
  qed
  from m(3) [rule_format, of 1 1 1 1 "1.5"] S3_graph_nodes later
  have c7: "m ! 7 = 1.5" by simp
  have "\<forall>i < no_of_nodes S3_graph. cell 2 2 ''pos'' (nodes S3_graph ! i) \<noteq> 1"
  proof (intro allI impI)
    fix i assume "i < no_of_nodes S3_graph"
    then have "i = 0 \<or> i = 1 \<or> i = 2" using less_3_cases by (simp add: S3_graph_nodes(1))
    then show "cell 2 2 ''pos'' (nodes S3_graph ! i) \<noteq> 1"
      using S3_graph_cells by auto
  qed
  with m(4) [rule_format, of 1] have c1: "m ! 1 = 0" by simp
  from m(1,2) c7 c1 show ?thesis by blast
qed

text \<open>
  Without the bound on the product the claim fails: with a 64-bit \<^verbatim>\<open>id_type\<close>, the
  dimensions \<open>2 ^ 32\<close>, \<open>2 ^ 32\<close>, 1 give a vector of size \<open>2 ^ 64 mod 2 ^ 64 = 0\<close>, and the
  node at the origin, which satisfies I5, makes \<^verbatim>\<open>weights.at(0)\<close> throw.
\<close>

theorem as_matrix_cells_counterexample:
  "I5 (2 ^ 32) (2 ^ 32) 1 ''weight'' ''pos'' origin_graph
   \<and> as_matrix lp64 (2 ^ 32) (2 ^ 32) 1 ''weight'' ''pos'' origin_graph = Inl OutOfRange"
proof -
  have "has_pos ''pos'' (hd (nodes origin_graph)) 0 0 0 \<and> (0::nat) < 2 ^ 32 \<and> (0::nat) < 2 ^ 32 \<and> (0::nat) < 1"
    by (simp add: has_pos_def origin_graph_def)
  then have "\<exists>x y z. has_pos ''pos'' (hd (nodes origin_graph)) x y z \<and> x < 2 ^ 32 \<and> y < 2 ^ 32 \<and> z < 1"
    by blast
  moreover have "has_weight ''weight'' (hd (nodes origin_graph)) 0.5"
    by (simp add: has_weight_def origin_graph_def)
  then have "\<exists>w. has_weight ''weight'' (hd (nodes origin_graph)) w" by blast
  moreover have "set (nodes origin_graph) = {hd (nodes origin_graph)}"
    by (simp add: origin_graph_def)
  ultimately have "I5 (2 ^ 32) (2 ^ 32) 1 ''weight'' ''pos'' origin_graph"
    unfolding I5_def by simp
  moreover have "id_type_wrap lp64 (2 ^ 32 * 2 ^ 32 * 1) = 0"
    by (simp add: id_type_wrap_def lp64_def)
  then have "as_matrix lp64 (2 ^ 32) (2 ^ 32) 1 ''weight'' ''pos'' origin_graph = Inl OutOfRange"
    by (simp add: as_matrix_def origin_graph_def as_matrix_step_def Property_at_def flat_index_def
        to_size_t_def lp64_def)
  ultimately show ?thesis by simp
qed

section \<open>The reader on the writer's header\<close>

lemma length_tl_dropWhile: "xs \<noteq> [] \<Longrightarrow> length (dropWhile P xs) - Suc 0 < length xs"
  using length_dropWhile_le [of P xs] by (cases xs) auto

lemma getline_fuel_less: "good s \<Longrightarrow> fuel (fst (getline s line)) < fuel s"
proof (cases "NL \<in> set (rest s)")
  case True
  then have "rest s \<noteq> []" by auto
  from length_tl_dropWhile [OF this] length_dropWhile_le [of "\<lambda>c. c \<noteq> NL" "rest s"] True
  show "good s \<Longrightarrow> ?thesis"
    by (simp add: getline_def fuel_def good_def)
next
  case False
  then show "good s \<Longrightarrow> ?thesis"
    by (simp add: getline_def fuel_def good_def)
qed

lemma getline_fuel_le: "fuel (fst (getline s line)) \<le> fuel s"
proof (cases "good s")
  case True
  then show ?thesis using getline_fuel_less [of s line] by simp
next
  case False
  then show ?thesis by (simp add: getline_def fuel_def good_def)
qed

lemma header_entries_loop_fuel:
  "header_entries_loop im sf k fl line m = Inr (fl', line', m') \<Longrightarrow> fuel fl' \<le> fuel fl"
proof (induction k arbitrary: fl line m)
  case 0
  then show ?case by simp
next
  case (Suc k)
  obtain fl1 line1 where g: "getline fl line = (fl1, line1)" by fastforce
  with Suc.prems obtain m1 where "header_entries_loop im sf k fl1 line1 m1 = Inr (fl', line', m')"
    by (auto split: list.splits sum.splits)
  from Suc.IH [OF this] have "fuel fl' \<le> fuel fl1" .
  also have "fuel fl1 \<le> fuel fl" using getline_fuel_le [of fl line] g by simp
  finally show ?case .
qed

lemma header_section_fuel:
  "header_section im sf fl line header = Inr (fl', line', header') \<Longrightarrow> fuel fl' \<le> fuel fl"
  by (auto simp: header_section_def split: sum.splits dest: header_entries_loop_fuel)

lemma properties_section_fuel:
  assumes "properties_section im sf fl line header = Inr (fl', line', header')"
  shows "fuel fl' \<le> fuel fl"
proof -
  obtain fl1 line1 where g: "getline fl line = (fl1, line1)" by fastforce
  with assms have "fl' = fl1"
    by (auto simp: properties_section_def Let_def split: if_splits sum.splits)
  with getline_fuel_le [of fl line] g show ?thesis by simp
qed

lemma parse_header_loop_returns:
  "\<exists>r. parse_header_loop im sf fl line header = Some r"
proof (induction "fuel fl" arbitrary: fl line header rule: less_induct)
  case less
  show ?case
  proof (cases "good fl \<and> line \<noteq> ''# Data''")
    case False
    then show ?thesis by (subst parse_header_loop.simps) auto
  next
    case True
    obtain fl1 line1 where g: "getline fl line = (fl1, line1)" by fastforce
    from True getline_fuel_less [of fl line] g have f1: "fuel fl1 < fuel fl" by simp
    show ?thesis
    proof (cases "line1 = ''# Header''")
      case h: True
      show ?thesis
      proof (cases "header_section im sf fl1 line1 header")
        case (Inl e)
        with True g h show ?thesis by (subst parse_header_loop.simps) simp
      next
        case (Inr t)
        then obtain fl2 line2 header2 where
          t: "header_section im sf fl1 line1 header = Inr (fl2, line2, header2)"
          by (cases t) auto
        from header_section_fuel [OF t] f1 have "fuel fl2 < fuel fl" by simp
        from less [OF this] obtain r where "parse_header_loop im sf fl2 line2 header2 = Some r"
          by blast
        with True g h t show ?thesis by (subst parse_header_loop.simps) simp
      qed
    next
      case nh: False
      show ?thesis
      proof (cases "line1 = ''# Properties''")
        case p: True
        show ?thesis
        proof (cases "properties_section im sf fl1 line1 header")
          case (Inl e)
          with True g nh p show ?thesis by (subst parse_header_loop.simps) simp
        next
          case (Inr t)
          then obtain fl2 line2 header2 where
            t: "properties_section im sf fl1 line1 header = Inr (fl2, line2, header2)"
            by (cases t) auto
          from properties_section_fuel [OF t] f1 have "fuel fl2 < fuel fl" by simp
          from less [OF this] obtain r where "parse_header_loop im sf fl2 line2 header2 = Some r"
            by blast
          with True g nh p t show ?thesis by (subst parse_header_loop.simps) simp
        qed
      next
        case np: False
        from less [OF f1] obtain r where "parse_header_loop im sf fl1 line1 header = Some r"
          by blast
        with True g nh np show ?thesis by (subst parse_header_loop.simps) simp
      qed
    qed
  qed
qed

lemma parse_header_returns:
  "(\<exists>r. parse_header im sf fl = Some r) \<and> (\<exists>r. load_binary im sf rp contents = Some r)"
proof
  show p: "\<exists>r. parse_header im sf fl = Some r" for fl
    unfolding parse_header_def by (rule parse_header_loop_returns)
  show "\<exists>r. load_binary im sf rp contents = Some r"
  proof (cases contents)
    case None
    then show ?thesis by (simp add: load_binary_def)
  next
    case (Some c)
    from p [of "open_stream c"] obtain r where "parse_header im sf (open_stream c) = Some r" by blast
    with Some show ?thesis
      by (cases r) (auto simp: load_binary_def)
  qed
qed

section \<open>Decimal numbers\<close>

lemma of_char_digit: "d < 10 \<Longrightarrow> (of_char (char_of (48 + d :: nat)) :: nat) = 48 + d"
  by simp

lemma isdigit_digit: "d < 10 \<Longrightarrow> isdigit (char_of (48 + d :: nat))"
  by (simp add: isdigit_def)

lemma digit_val_digit: "d < 10 \<Longrightarrow> digit_val (char_of (48 + d :: nat)) = d"
  by (simp add: digit_val_def)

lemma decimal_digits: "c \<in> set (decimal n) \<Longrightarrow> isdigit c"
proof (induction n arbitrary: c rule: decimal.induct)
  case (1 n)
  show ?case
  proof (cases "n < 10")
    case True
    with "1.prems" show ?thesis by (simp add: decimal.simps [of n] isdigit_digit)
  next
    case False
    with "1.prems" have "c \<in> set (decimal (n div 10)) \<or> c = char_of (48 + n mod 10)"
      by (auto simp: decimal.simps [of n])
    then show ?thesis
    proof
      assume "c \<in> set (decimal (n div 10))"
      with "1.IH" False show ?thesis by simp
    next
      assume "c = char_of (48 + n mod 10)"
      then show ?thesis by (simp add: isdigit_digit)
    qed
  qed
qed

lemma decimal_nonempty: "decimal n \<noteq> []"
  by (subst decimal.simps) simp

lemma dec_val_append: "dec_val acc (xs @ ys) = dec_val (dec_val acc xs) ys"
  by (induction xs arbitrary: acc) simp_all

lemma dec_val_decimal: "dec_val 0 (decimal n) = n"
proof (induction n rule: decimal.induct)
  case (1 n)
  show ?case
  proof (cases "n < 10")
    case True
    then show ?thesis by (simp add: decimal.simps [of n] digit_val_digit)
  next
    case False
    with "1.IH" have "dec_val 0 (decimal (n div 10)) = n div 10" by simp
    with False show ?thesis
      by (simp add: decimal.simps [of n] dec_val_append digit_val_digit)
  qed
qed

lemma isdigit_not_space: "isdigit c \<Longrightarrow> \<not> isspace c \<and> c \<noteq> CHR ''-'' \<and> c \<noteq> CHR ''+''
    \<and> c \<noteq> CHR '' '' \<and> c \<noteq> CHR '')'' \<and> c \<noteq> CHR ''('' \<and> c \<noteq> CHR '','' \<and> c \<noteq> CHR '':''
    \<and> c \<noteq> CHR ''='' \<and> c \<noteq> NL"
  by (auto simp: isdigit_def isspace_def)

lemma stoul_decimal:
  assumes "n < 2 ^ (8 * sizeof_size_t im)" and "tail = [] \<or> \<not> isdigit (hd tail)"
  shows "stoul im (decimal n @ tail) = Inr n"
proof -
  obtain d ds where d: "decimal n = d # ds" using decimal_nonempty [of n] by (cases "decimal n") auto
  have dig: "\<forall>c \<in> set (decimal n). isdigit c" using decimal_digits by blast
  with d have hd: "isdigit d" by simp
  then have ns: "\<not> isspace d" "d \<noteq> CHR ''-''" "d \<noteq> CHR ''+''" using isdigit_not_space by blast+
  have dw: "dropWhile isspace (decimal n @ tail) = decimal n @ tail" using d ns by simp
  have tw: "takeWhile isdigit (decimal n @ tail) = decimal n"
  proof (cases tail)
    case Nil
    with dig show ?thesis by simp
  next
    case (Cons t ts)
    with assms(2) have "\<not> isdigit t" by simp
    with dig Cons show ?thesis by (simp add: takeWhile_append2)
  qed
  have h: "hd (decimal n) \<noteq> CHR ''-''" "hd (decimal n) \<noteq> CHR ''+''"
    using d ns by simp_all
  show ?thesis
    unfolding stoul_def dw Let_def
    using assms(1) by (simp add: h tw dec_val_decimal decimal_nonempty)
qed

section \<open>Splitting and trimming\<close>

lemma split_aux_no_delim:
  "c \<notin> set xs \<Longrightarrow> split_aux c acc xs = (if acc = [] \<and> xs = [] then [] else [rev acc @ xs])"
  by (induction xs arbitrary: acc) auto

lemma split_aux_delim:
  "c \<notin> set xs \<Longrightarrow> split_aux c acc (xs @ c # ys) = (rev acc @ xs) # split_aux c [] ys"
  by (induction xs arbitrary: acc) auto

lemma split_ref_delim:
  "c \<notin> set xs \<Longrightarrow> split_ref (xs @ c # ys) c = xs # split_ref ys c"
  by (simp add: split_ref_def split_aux_delim)

lemma split_ref_no_delim:
  "c \<notin> set xs \<Longrightarrow> xs \<noteq> [] \<Longrightarrow> split_ref xs c = [xs]"
  by (simp add: split_ref_def split_aux_no_delim)

lemma dropWhile_id: "xs = [] \<or> \<not> P (hd xs) \<Longrightarrow> dropWhile P xs = xs"
  by (cases xs) auto

lemma trim_ref_core:
  assumes "set pre \<subseteq> set chars" "set post \<subseteq> set chars"
    and "s = [] \<or> (hd s \<notin> set chars \<and> last s \<notin> set chars)"
  shows "trim_ref (pre @ s @ post) chars = s"
proof (cases "s = []")
  case True
  from assms(1,2) have "dropWhile (\<lambda>c. c \<in> set chars) (pre @ [] @ post) = []"
    by (auto simp: dropWhile_eq_Nil_conv)
  then have "trim_ref (pre @ [] @ post) chars = []"
    by (simp only: trim_ref_def rev.simps dropWhile.simps)
  with True show ?thesis by (simp only:)
next
  case False
  with assms(3) have h: "hd s \<notin> set chars" "last s \<notin> set chars" by auto
  from assms(1) have "dropWhile (\<lambda>c. c \<in> set chars) (pre @ s @ post) = dropWhile (\<lambda>c. c \<in> set chars) (s @ post)"
    by (auto simp: dropWhile_append)
  also have "\<dots> = s @ post" using False h(1) by (cases s) auto
  finally have d1: "dropWhile (\<lambda>c. c \<in> set chars) (pre @ s @ post) = s @ post" .
  from assms(2) have "dropWhile (\<lambda>c. c \<in> set chars) (rev post @ rev s) = dropWhile (\<lambda>c. c \<in> set chars) (rev s)"
    by (auto simp: dropWhile_append)
  also have "\<dots> = rev s" using False h(2) by (cases s rule: rev_cases) auto
  finally have d2: "dropWhile (\<lambda>c. c \<in> set chars) (rev (s @ post)) = rev s" by simp
  show ?thesis by (simp only: trim_ref_def d1 d2 rev_rev_ident)
qed

lemma trim_ref_idem:
  "trim_ref (pre @ s) chars = trim_ref s chars" if "set pre \<subseteq> set chars"
proof -
  from that have "dropWhile (\<lambda>c. c \<in> set chars) (pre @ s) = dropWhile (\<lambda>c. c \<in> set chars) s"
    by (auto simp: dropWhile_append)
  then show ?thesis by (simp add: trim_ref_def)
qed

section \<open>Reading the header that the writer wrote\<close>

lemma takeWhile_dropWhile_delim:
  "c \<notin> set l \<Longrightarrow> takeWhile (\<lambda>x. x \<noteq> c) (l @ c # r) = l \<and> dropWhile (\<lambda>x. x \<noteq> c) (l @ c # r) = c # r"
  by (induction l) auto

lemma getline_line:
  assumes "good s" and "rest s = l @ NL # r" and "NL \<notin> set l"
  shows "getline s line = (s\<lparr>rest := r\<rparr>, l)"
proof -
  from assms(2) have "NL \<in> set (rest s)" by simp
  with assms(1,2) takeWhile_dropWhile_delim [OF assms(3), of r]
  show ?thesis by (simp add: getline_def)
qed

lemma decimal_no_char:
  "\<not> isdigit c \<Longrightarrow> c \<notin> set (decimal n)"
  using decimal_digits by blast

lemma decimal_ends:
  "isdigit (hd (decimal n))" "isdigit (last (decimal n))"
  using decimal_digits [of _ n] decimal_nonempty [of n] by simp_all

lemma not_isdigit_simps [simp]:
  "\<not> isdigit NL" "\<not> isdigit CHR ''=''" "\<not> isdigit CHR '' ''" "\<not> isdigit CHR 0x09" "\<not> isdigit CHR 0x0D"
  "\<not> isdigit CHR '')''" "\<not> isdigit CHR ''(''" "\<not> isdigit CHR '',''" "\<not> isdigit CHR '':''"
  by (simp_all add: isdigit_def)

lemma header_entry_step:
  assumes g: "good s"
    and r: "rest s = key @ '' = '' @ decimal n @ replicate j CHR '' '' @ NL # r"
    and key: "CHR ''='' \<notin> set key" "NL \<notin> set key" "key \<noteq> []" "hd key \<notin> set ws" "last key \<notin> set ws"
    and n: "n < 2 ^ (8 * sizeof_size_t im)"
  shows "header_entries_loop im ref_strings (Suc k) s line m =
      header_entries_loop im ref_strings k (s\<lparr>rest := r\<rparr>)
        (key @ '' = '' @ decimal n @ replicate j CHR '' '') (fmupd key n m)"
proof -
  define l where "l = key @ '' = '' @ decimal n @ replicate j CHR '' ''"
  have nl: "NL \<notin> set l"
    using key(2) decimal_no_char [of NL n] by (auto simp: l_def)
  from r have r': "rest s = l @ NL # r" by (simp add: l_def)
  note gl = getline_line [OF g r' nl, of line]
  define v where "v = CHR '' '' # decimal n @ replicate j CHR '' ''"
  have l2: "l = (key @ '' '') @ CHR ''='' # v" by (simp add: l_def v_def)
  have "CHR ''='' \<notin> set v" using decimal_no_char [of "CHR ''=''" n] by (auto simp: v_def)
  then have sv: "split_ref v CHR ''='' = [v]" by (rule split_ref_no_delim) (simp add: v_def)
  have sp: "split_ref l CHR ''='' = [key @ '' '', v]"
    unfolding l2 using key(1) by (subst split_ref_delim) (simp_all add: sv)
  have t1: "trim_ref (key @ '' '') ws = key"
    using trim_ref_core [of "[]" ws "'' ''" key] key by simp
  have "trim_ref ('' '' @ decimal n @ replicate j CHR '' '') ws = decimal n"
    by (rule trim_ref_core) (use decimal_ends [of n] in \<open>auto simp: decimal_nonempty\<close>)
  then have t2: "trim_ref v ws = decimal n" by (simp add: v_def)
  have st: "stoul im (decimal n) = Inr n"
    using stoul_decimal [OF n, of "[]"] by simp
  have "header_entries_loop im ref_strings (Suc k) s line m =
      header_entries_loop im ref_strings k (s\<lparr>rest := r\<rparr>) l (fmupd key n m)"
    by (simp add: gl sp ref_strings_def t1 t2 st)
  then show ?thesis by (simp add: l_def)
qed

lemma good_rest [simp]: "good (s\<lparr>rest := r\<rparr>) = good s"
  by (simp add: good_def)

lemma header_section_entries:
  assumes g: "good s" and r: "rest s = entries_text wr n e @ r"
    and b: "n < 2 ^ (8 * sizeof_size_t im)" "e < 2 ^ (8 * sizeof_size_t im)"
      "sizeof_id_type wr < 2 ^ (8 * sizeof_size_t im)"
      "sizeof_property_type wr < 2 ^ (8 * sizeof_size_t im)"
      "sizeof_weight_type wr < 2 ^ (8 * sizeof_size_t im)"
  shows "header_section im ref_strings s line header =
     Inr (s\<lparr>rest := r\<rparr>, ''edge_weight_bytes = '' @ decimal (sizeof_weight_type wr),
          header\<lparr>node_count := Some (id_type_wrap im n),
                 edge_count := Some (id_type_wrap im e),
                 node_id_bytes := Some (unsigned_wrap im (sizeof_id_type wr)),
                 property_element_bytes := Some (unsigned_wrap im (sizeof_property_type wr)),
                 edge_weight_bytes := Some (unsigned_wrap im (sizeof_weight_type wr))\<rparr>)"
proof -
  define j where "j = edge_count_width wr - length (decimal e)"
  define r5 where "r5 = r"
  define r4 where "r4 = ''edge_weight_bytes = '' @ decimal (sizeof_weight_type wr) @ NL # r5"
  define r3 where "r3 = ''property_element_bytes = '' @ decimal (sizeof_property_type wr) @ NL # r4"
  define r2 where "r2 = ''node_id_bytes = '' @ decimal (sizeof_id_type wr) @ NL # r3"
  define r1 where "r1 = ''edge_count = '' @ decimal e @ replicate j CHR '' '' @ NL # r2"
  have r0: "rest s = ''node_count'' @ '' = '' @ decimal n @ replicate 0 CHR '' '' @ NL # r1"
    by (simp add: r entries_text_def r1_def r2_def r3_def r4_def r5_def j_def)
  have e1: "rest (s\<lparr>rest := r1\<rparr>) = ''edge_count'' @ '' = '' @ decimal e @ replicate j CHR '' '' @ NL # r2"
    by (simp add: r1_def)
  have e2: "rest (s\<lparr>rest := r2\<rparr>) = ''node_id_bytes'' @ '' = '' @ decimal (sizeof_id_type wr) @ replicate 0 CHR '' '' @ NL # r3"
    by (simp add: r2_def)
  have e3: "rest (s\<lparr>rest := r3\<rparr>) = ''property_element_bytes'' @ '' = '' @ decimal (sizeof_property_type wr) @ replicate 0 CHR '' '' @ NL # r4"
    by (simp add: r3_def)
  have e4: "rest (s\<lparr>rest := r4\<rparr>) = ''edge_weight_bytes'' @ '' = '' @ decimal (sizeof_weight_type wr) @ replicate 0 CHR '' '' @ NL # r5"
    by (simp add: r4_def)
  have g': "good (s\<lparr>rest := x\<rparr>)" for x using g by simp
  have s1: "header_entries_loop im ref_strings (Suc 4) s line fmempty =
      header_entries_loop im ref_strings 4 (s\<lparr>rest := r1\<rparr>)
        (''node_count'' @ '' = '' @ decimal n @ replicate 0 CHR '' '') (fmupd ''node_count'' n fmempty)"
    by (rule header_entry_step [OF g r0 _ _ _ _ _ b(1)]) simp_all
  have s2: "header_entries_loop im ref_strings (Suc 3) (s\<lparr>rest := r1\<rparr>) l m =
      header_entries_loop im ref_strings 3 (s\<lparr>rest := r2\<rparr>)
        (''edge_count'' @ '' = '' @ decimal e @ replicate j CHR '' '') (fmupd ''edge_count'' e m)" for l m
    by (subst header_entry_step [OF g' e1 _ _ _ _ _ b(2)]) simp_all
  have s3: "header_entries_loop im ref_strings (Suc 2) (s\<lparr>rest := r2\<rparr>) l m =
      header_entries_loop im ref_strings 2 (s\<lparr>rest := r3\<rparr>)
        (''node_id_bytes'' @ '' = '' @ decimal (sizeof_id_type wr) @ replicate 0 CHR '' '')
        (fmupd ''node_id_bytes'' (sizeof_id_type wr) m)" for l m
    by (subst header_entry_step [OF g' e2 _ _ _ _ _ b(3)]) simp_all
  have s4: "header_entries_loop im ref_strings (Suc 1) (s\<lparr>rest := r3\<rparr>) l m =
      header_entries_loop im ref_strings 1 (s\<lparr>rest := r4\<rparr>)
        (''property_element_bytes'' @ '' = '' @ decimal (sizeof_property_type wr) @ replicate 0 CHR '' '')
        (fmupd ''property_element_bytes'' (sizeof_property_type wr) m)" for l m
    by (subst header_entry_step [OF g' e3 _ _ _ _ _ b(4)]) simp_all
  have s5: "header_entries_loop im ref_strings (Suc 0) (s\<lparr>rest := r4\<rparr>) l m =
      header_entries_loop im ref_strings 0 (s\<lparr>rest := r5\<rparr>)
        (''edge_weight_bytes'' @ '' = '' @ decimal (sizeof_weight_type wr) @ replicate 0 CHR '' '')
        (fmupd ''edge_weight_bytes'' (sizeof_weight_type wr) m)" for l m
    by (subst header_entry_step [OF g' e4 _ _ _ _ _ b(5)]) simp_all
  have five: "(5::nat) = Suc 4" "(4::nat) = Suc 3" "(3::nat) = Suc 2" "(2::nat) = Suc 1" "(1::nat) = Suc 0"
    by simp_all
  have loop: "header_entries_loop im ref_strings 5 s line fmempty =
      Inr (s\<lparr>rest := r\<rparr>, ''edge_weight_bytes = '' @ decimal (sizeof_weight_type wr),
           fmupd ''edge_weight_bytes'' (sizeof_weight_type wr)
             (fmupd ''property_element_bytes'' (sizeof_property_type wr)
               (fmupd ''node_id_bytes'' (sizeof_id_type wr)
                 (fmupd ''edge_count'' e (fmupd ''node_count'' n fmempty)))))"
    apply (subst five(1), subst s1)
    apply (subst five(2), subst s2)
    apply (subst five(3), subst s3)
    apply (subst five(4), subst s4)
    apply (subst five(5), subst s5)
    apply (simp add: r5_def)
    done
  show ?thesis
    unfolding header_section_def loop by (simp add: entry_def)
qed

lemma schema_text_inner: "its \<noteq> [] \<Longrightarrow> schema_text its = ''('' @ inner_text its @ '')''"
  by (induction its rule: inner_text.induct) simp_all

lemma token_step:
  assumes nm: "CHR '':'' \<notin> set name" and pre: "set pre \<subseteq> set '' (''" and post: "set post \<subseteq> set '' )''"
    and d: "d < 2 ^ (8 * sizeof_size_t im)" "d < 2 ^ (8 * sizeof_unsigned im)"
  shows "tokens_loop im ref_strings ((pre @ name @ '':'' @ decimal d @ post) # toks) total_elements props
     = tokens_loop im ref_strings toks (size_t_wrap im (total_elements + d))
         (props @ [(trim_ref name '' ('', d)])"
proof -
  have "CHR '':'' \<notin> set (pre @ name)" using nm pre by auto
  then have "split_ref ((pre @ name) @ CHR '':'' # (decimal d @ post)) CHR '':''
      = (pre @ name) # split_ref (decimal d @ post) CHR '':''"
    by (rule split_ref_delim)
  moreover have "CHR '':'' \<notin> set (decimal d @ post)"
    using post decimal_no_char [of "CHR '':''" d] by auto
  then have "split_ref (decimal d @ post) CHR '':'' = [decimal d @ post]"
    by (rule split_ref_no_delim) (simp add: decimal_nonempty)
  ultimately have sp: "split_ref (pre @ name @ CHR '':'' # decimal d @ post) CHR '':''
      = [pre @ name, decimal d @ post]" by simp
  have t1: "trim_ref (pre @ name) '' ('' = trim_ref name '' (''"
    by (rule trim_ref_idem) (rule pre)
  have "trim_ref ([] @ decimal d @ post) '' )'' = decimal d"
    by (rule trim_ref_core) (use post decimal_ends [of d] in \<open>auto simp: decimal_nonempty\<close>)
  then have t2: "trim_ref (decimal d @ post) '' )'' = decimal d" by simp
  have st: "stoul im (decimal d) = Inr d" using stoul_decimal [OF d(1), of "[]"] by simp
  have uw: "unsigned_wrap im d = d" using d(2) by (simp add: unsigned_wrap_def)
  show ?thesis
    by (simp add: sp ref_strings_def t1 t2 st uw del: split_ref_def)
qed

lemma size_t_wrap_small: "n < 2 ^ (8 * sizeof_size_t im) \<Longrightarrow> size_t_wrap im n = n"
  by (simp add: size_t_wrap_def)

lemma tokens_loop_inner:
  assumes "its \<noteq> []" and "\<forall>(name, p) \<in> set its. name_ok name"
    and "set pre \<subseteq> set '' (''"
    and "total_elements + sum_list (map (\<lambda>(name, p). length p) its) < 2 ^ (8 * sizeof_size_t im)"
    and "\<forall>(name, p) \<in> set its. length p < 2 ^ (8 * sizeof_unsigned im)"
  shows "tokens_loop im ref_strings (split_ref (pre @ inner_text its) CHR '','') total_elements props
     = Inr (total_elements + sum_list (map (\<lambda>(name, p). length p) its), props @ loaded_schema its)"
  using assms
proof (induction its arbitrary: pre total_elements props rule: inner_text.induct)
  case 1
  then show ?case by simp
next
  case (2 name p)
  then have nm: "CHR '','' \<notin> set name" "CHR '':'' \<notin> set name" by (simp_all add: name_ok_def)
  have "CHR '','' \<notin> set (pre @ name @ '':'' @ decimal (length p))"
    using nm "2.prems"(3) decimal_no_char [of "CHR '',''" "length p"] by auto
  then have sp: "split_ref (pre @ name @ CHR '':'' # decimal (length p)) CHR '',''
      = [pre @ name @ CHR '':'' # decimal (length p)]"
    using split_ref_no_delim [of "CHR '',''" "pre @ name @ '':'' @ decimal (length p)"] by simp
  from "2.prems" have d: "length p < 2 ^ (8 * sizeof_size_t im)" "length p < 2 ^ (8 * sizeof_unsigned im)"
    and t: "total_elements + length p < 2 ^ (8 * sizeof_size_t im)" by simp_all
  from token_step [OF nm(2) "2.prems"(3) _ d, of "[]" "[]" total_elements props]
  have "tokens_loop im ref_strings [pre @ name @ CHR '':'' # decimal (length p)] total_elements props =
      Inr (size_t_wrap im (total_elements + length p), props @ [(trim_ref name '' ('', length p)])"
    by simp
  with t show ?case by (simp add: sp loaded_schema_def size_t_wrap_small del: split_ref_def)
next
  case (3 name p it its)
  then have nm: "CHR '','' \<notin> set name" "CHR '':'' \<notin> set name" by (simp_all add: name_ok_def)
  define tok where "tok = pre @ name @ '':'' @ decimal (length p) @ '')''"
  have "CHR '','' \<notin> set tok"
    using nm "3.prems"(3) decimal_no_char [of "CHR '',''" "length p"] by (auto simp: tok_def)
  then have "split_ref (tok @ CHR '','' # (''('' @ inner_text (it # its))) CHR '',''
      = tok # split_ref (''('' @ inner_text (it # its)) CHR '',''"
    by (rule split_ref_delim)
  then have sp: "split_ref (pre @ inner_text ((name, p) # it # its)) CHR '',''
      = tok # split_ref (''('' @ inner_text (it # its)) CHR '',''"
    by (simp add: tok_def)
  from "3.prems" have d: "length p < 2 ^ (8 * sizeof_size_t im)" "length p < 2 ^ (8 * sizeof_unsigned im)"
    and t: "total_elements + length p < 2 ^ (8 * sizeof_size_t im)"
    and t': "(total_elements + length p) + sum_list (map (\<lambda>(name, p). length p) (it # its)) < 2 ^ (8 * sizeof_size_t im)"
    by (simp_all add: add.assoc)
  from token_step [OF nm(2) "3.prems"(3) _ d, of "'')''" _ total_elements props]
  have ts: "tokens_loop im ref_strings (tok # toks) total_elements props =
      tokens_loop im ref_strings toks (total_elements + length p) (props @ [(trim_ref name '' ('', length p)])" for toks
    using t by (simp add: tok_def size_t_wrap_small)
  have ih: "tokens_loop im ref_strings (split_ref (''('' @ inner_text (it # its)) CHR '','') (total_elements + length p)
        (props @ [(trim_ref name '' ('', length p)])
     = Inr ((total_elements + length p) + sum_list (map (\<lambda>(name, p). length p) (it # its)),
            (props @ [(trim_ref name '' ('', length p)]) @ loaded_schema (it # its))"
    by (rule "3.IH") (use "3.prems" t' in simp_all)
  show ?case
    unfolding sp ts ih by (simp add: loaded_schema_def add.assoc)
qed

lemma find_first_of_delim: "c \<notin> set pre \<Longrightarrow> find_first_of (pre @ c # xs) c = Some (length pre)"
  by (induction pre) auto

lemma find_last_of_last: "find_last_of (xs @ [c]) c = Some (length xs)"
  by (simp add: find_last_of_def)

lemma inner_text_no_NL:
  "\<forall>(name, p) \<in> set its. name_ok name \<Longrightarrow> NL \<notin> set (inner_text its)"
  by (induction its rule: inner_text.induct)
     (use decimal_no_char [of NL] in \<open>auto simp: name_ok_def\<close>)

lemma inner_text_colon: "its \<noteq> [] \<Longrightarrow> CHR '':'' \<in> set (inner_text its)"
  by (induction its rule: inner_text.induct) auto

lemma properties_section_written:
  assumes g: "good s" and r: "rest s = ''properties = '' @ schema_text its @ NL # r"
    and its: "its \<noteq> []" and ok: "\<forall>(name, p) \<in> set its. name_ok name"
    and sum: "sum_list (map (\<lambda>(name, p). length p) its) < 2 ^ (8 * sizeof_unsigned im)"
    and us: "sizeof_unsigned im \<le> sizeof_size_t im"
    and len: "length (inner_text its) < 2 ^ (8 * sizeof_size_t im)"
  shows "properties_section im ref_strings s line header =
     Inr (s\<lparr>rest := r\<rparr>, inner_text its,
          header\<lparr>Header_properties := Header_properties header @ loaded_schema its,
                 total_property_elements := Some (sum_list (map (\<lambda>(name, p). length p) its))\<rparr>)"
proof -
  define l where "l = ''properties = '' @ schema_text its"
  have st: "schema_text its = ''('' @ inner_text its @ '')''" using its by (rule schema_text_inner)
  have nl: "NL \<notin> set l" using inner_text_no_NL [OF ok] by (simp add: l_def st)
  from r have r': "rest s = l @ NL # r" by (simp add: l_def)
  note gl = getline_line [OF g r' nl, of line]
  have l1: "l = ''properties = '' @ CHR ''('' # (inner_text its @ '')'')" by (simp add: l_def st)
  have ff: "find_first_of l CHR ''('' = Some 13"
    unfolding l1 by (subst find_first_of_delim) simp_all
  have l2: "l = (''properties = ('' @ inner_text its) @ [CHR '')'']" by (simp add: l_def st)
  have fl: "find_last_of l CHR '')'' = Some (14 + length (inner_text its))"
    unfolding l2 by (subst find_last_of_last) simp
  have ll: "length l = 15 + length (inner_text its)" by (simp add: l_def st)
  have dr: "drop 14 l = inner_text its @ '')''" by (simp add: l_def st)
  have cnt: "size_t_wrap im (length (inner_text its) + 2 ^ (8 * sizeof_size_t im))
      = length (inner_text its)"
    using len by (simp add: size_t_wrap_def)
  have pw: "(2::nat) ^ (8 * sizeof_unsigned im) \<le> 2 ^ (8 * sizeof_size_t im)"
    using us by (intro power_increasing) simp_all
  have each: "\<forall>(name, p) \<in> set its. length p < 2 ^ (8 * sizeof_unsigned im)"
  proof (clarify)
    fix name p assume "(name, p) \<in> set its"
    then have "length p \<le> sum_list (map (\<lambda>(name, p). length p) its)"
      by (induction its) auto
    with sum show "length p < 2 ^ (8 * sizeof_unsigned im)" by simp
  qed
  have tl: "tokens_loop im ref_strings (split_ref ([] @ inner_text its) CHR '','') 0 props
     = Inr (0 + sum_list (map (\<lambda>(name, p). length p) its), props @ loaded_schema its)" for props
  proof (rule tokens_loop_inner [OF its ok _ _ each])
    from sum pw have "sum_list (map (\<lambda>(name, p). length p) its) < 2 ^ (8 * sizeof_size_t im)"
      by (rule order_less_le_trans)
    then show "0 + sum_list (map (\<lambda>(name, p). length p) its) < 2 ^ (8 * sizeof_size_t im)" by simp
  qed simp
  have uw: "unsigned_wrap im (sum_list (map (\<lambda>(name, p). length p) its))
      = sum_list (map (\<lambda>(name, p). length p) its)"
    using sum by (simp add: unsigned_wrap_def)
  have sp: "split ref_strings = split_ref" by (simp add: ref_strings_def)
  show ?thesis
    unfolding properties_section_def gl
    using tl by (simp add: ff fl ll dr cnt sp uw Let_def)
qed

lemma parse_header_loop_sections:
  assumes fits: "header_fits wr im n e its"
    and g: "good s"
    and r: "rest s = ''# Header'' @ [NL] @ entries_text wr n e @ schema_lines its @ tail"
  shows "parse_header_loop im ref_strings s [] Header_uninit =
     parse_header_loop im ref_strings (s\<lparr>rest := tail\<rparr>)
       (if its = [] then ''edge_weight_bytes = '' @ decimal (sizeof_weight_type wr) else inner_text its)
       (read_header wr im n e its)"
proof -
  define r1 where "r1 = entries_text wr n e @ schema_lines its @ tail"
  have r0: "rest s = ''# Header'' @ NL # r1" by (simp add: r r1_def)
  have g1: "getline s [] = (s\<lparr>rest := r1\<rparr>, ''# Header'')"
    by (rule getline_line [OF g r0]) simp
  from fits have b: "n < 2 ^ (8 * sizeof_size_t im)" "e < 2 ^ (8 * sizeof_size_t im)"
      "sizeof_id_type wr < 2 ^ (8 * sizeof_size_t im)"
      "sizeof_property_type wr < 2 ^ (8 * sizeof_size_t im)"
      "sizeof_weight_type wr < 2 ^ (8 * sizeof_size_t im)"
    by (simp_all add: header_fits_def)
  define h1 where "h1 = Header_uninit\<lparr>node_count := Some (id_type_wrap im n),
                 edge_count := Some (id_type_wrap im e),
                 node_id_bytes := Some (unsigned_wrap im (sizeof_id_type wr)),
                 property_element_bytes := Some (unsigned_wrap im (sizeof_property_type wr)),
                 edge_weight_bytes := Some (unsigned_wrap im (sizeof_weight_type wr))\<rparr>"
  define l5 where "l5 = ''edge_weight_bytes = '' @ decimal (sizeof_weight_type wr)"
  have hs: "header_section im ref_strings (s\<lparr>rest := r1\<rparr>) ''# Header'' Header_uninit =
     Inr (s\<lparr>rest := schema_lines its @ tail\<rparr>, l5, h1)"
    using header_section_entries [of "s\<lparr>rest := r1\<rparr>" wr n e "schema_lines its @ tail" im "''# Header''" Header_uninit]
      g b by (simp add: r1_def h1_def l5_def)
  have step1: "parse_header_loop im ref_strings s [] Header_uninit =
      parse_header_loop im ref_strings (s\<lparr>rest := schema_lines its @ tail\<rparr>) l5 h1"
    by (subst parse_header_loop.simps) (simp add: g g1 hs)
  show ?thesis
  proof (cases "its = []")
    case True
    then have "read_header wr im n e its = h1"
      by (simp add: read_header_def h1_def Header_uninit_def loaded_schema_def)
    with True step1 show ?thesis by (simp add: schema_lines_def l5_def)
  next
    case False
    define r2 where "r2 = ''properties = '' @ schema_text its @ NL # tail"
    have l5ne: "l5 \<noteq> ''# Data''" by (simp add: l5_def)
    have rs: "schema_lines its @ tail = ''# Properties'' @ NL # r2"
      using False by (simp add: schema_lines_def r2_def)
    have g2: "getline (s\<lparr>rest := schema_lines its @ tail\<rparr>) l5 = (s\<lparr>rest := r2\<rparr>, ''# Properties'')"
      using getline_line [of "s\<lparr>rest := schema_lines its @ tail\<rparr>" "''# Properties''" r2 l5] g
      by (simp add: rs)
    from fits have ok: "\<forall>(name, p) \<in> set its. name_ok name"
      and sum: "sum_list (map (\<lambda>(name, p). length p) its) < 2 ^ (8 * sizeof_unsigned im)"
      and us: "sizeof_unsigned im \<le> sizeof_size_t im"
      and len: "length (inner_text its) < 2 ^ (8 * sizeof_size_t im)"
      by (simp_all add: header_fits_def list_all_iff)
    have ps: "properties_section im ref_strings (s\<lparr>rest := r2\<rparr>) ''# Properties'' h1 =
        Inr (s\<lparr>rest := tail\<rparr>, inner_text its, read_header wr im n e its)"
      using properties_section_written [of "s\<lparr>rest := r2\<rparr>" its tail im "''# Properties''" h1,
          OF _ _ False ok sum us len] g False
      by (simp add: r2_def read_header_def h1_def Header_uninit_def)
    have step2: "parse_header_loop im ref_strings (s\<lparr>rest := schema_lines its @ tail\<rparr>) l5 h1 =
        parse_header_loop im ref_strings (s\<lparr>rest := tail\<rparr>) (inner_text its) (read_header wr im n e its)"
      by (subst parse_header_loop.simps) (simp add: g l5ne g2 ps)
    from False step1 step2 show ?thesis by simp
  qed
qed

lemma parse_header_written:
  assumes fits: "header_fits wr im n e its"
  shows "parse_header im ref_strings (open_stream (written_header wr n e its @ data)) =
     Some (Inr (read_header wr im n e its, open_stream data))"
proof -
  define s where "s = open_stream (written_header wr n e its @ data)"
  have g: "good s" by (simp add: s_def open_stream_def good_def)
  have r: "rest s = ''# Header'' @ [NL] @ entries_text wr n e @ schema_lines its @ (''# Data'' @ NL # data)"
    by (simp add: s_def open_stream_def written_header_def)
  define l where "l = (if its = [] then ''edge_weight_bytes = '' @ decimal (sizeof_weight_type wr) else inner_text its)"
  have lne: "l \<noteq> ''# Data''"
  proof (cases "its = []")
    case True
    then show ?thesis by (simp add: l_def)
  next
    case False
    from inner_text_colon [OF this] have "CHR '':'' \<in> set l" using False by (simp add: l_def)
    then show ?thesis by auto
  qed
  define s1 where "s1 = s\<lparr>rest := ''# Data'' @ NL # data\<rparr>"
  have g1: "good s1" using g by (simp add: s1_def)
  have gl: "getline s1 l = (s1\<lparr>rest := data\<rparr>, ''# Data'')"
    by (rule getline_line [OF g1]) (simp_all add: s1_def)
  have fin: "parse_header_loop im ref_strings (s1\<lparr>rest := data\<rparr>) ''# Data'' h = Some (Inr (h, s1\<lparr>rest := data\<rparr>))" for h
    by (subst parse_header_loop.simps) simp
  have "parse_header_loop im ref_strings s1 l h = Some (Inr (h, s1\<lparr>rest := data\<rparr>))" for h
    by (subst parse_header_loop.simps) (simp add: g1 lne gl fin)
  moreover have "s1\<lparr>rest := data\<rparr> = open_stream data"
    by (simp add: s1_def s_def open_stream_def)
  moreover have "parse_header_loop im ref_strings s [] Header_uninit =
      parse_header_loop im ref_strings s1 l (read_header wr im n e its)"
    unfolding s1_def l_def by (rule parse_header_loop_sections [OF fits g r])
  ultimately show ?thesis
    unfolding parse_header_def s_def [symmetric] by simp
qed

lemma parse_header_truncated:
  assumes fits: "header_fits wr im n e its"
  shows "parse_header im ref_strings
       (open_stream (''# Header'' @ [NL] @ entries_text wr n e @ schema_lines its)) =
     Some (Inr (read_header wr im n e its, \<lparr>rest = [], eofbit = True, failbit = True\<rparr>))"
proof -
  define s where "s = open_stream (''# Header'' @ [NL] @ entries_text wr n e @ schema_lines its)"
  have g: "good s" by (simp add: s_def open_stream_def good_def)
  have r: "rest s = ''# Header'' @ [NL] @ entries_text wr n e @ schema_lines its @ []"
    by (simp add: s_def open_stream_def)
  define l where "l = (if its = [] then ''edge_weight_bytes = '' @ decimal (sizeof_weight_type wr) else inner_text its)"
  have lne: "l \<noteq> ''# Data''"
  proof (cases "its = []")
    case True
    then show ?thesis by (simp add: l_def)
  next
    case False
    from inner_text_colon [OF this] have "CHR '':'' \<in> set l" using False by (simp add: l_def)
    then show ?thesis by auto
  qed
  define s1 where "s1 = s\<lparr>rest := []\<rparr>"
  define s2 where "s2 = \<lparr>rest = [], eofbit = True, failbit = True\<rparr>"
  have g1: "good s1" using g by (simp add: s1_def)
  have gl: "getline s1 l = (s2, [])"
    using g1 by (simp add: getline_def s1_def s2_def s_def open_stream_def)
  have fin: "parse_header_loop im ref_strings s2 [] h = Some (Inr (h, s2))" for h
    by (subst parse_header_loop.simps) (simp add: s2_def good_def)
  have "parse_header_loop im ref_strings s1 l h = Some (Inr (h, s2))" for h
    by (subst parse_header_loop.simps) (simp add: g1 lne gl fin)
  moreover have "parse_header_loop im ref_strings s [] Header_uninit =
      parse_header_loop im ref_strings s1 l (read_header wr im n e its)"
    unfolding s1_def l_def by (rule parse_header_loop_sections [OF fits g r])
  ultimately show ?thesis
    unfolding parse_header_def s_def [symmetric] by (simp add: s2_def)
qed

lemma digit_chars:
  "char_of (48::nat) = CHR ''0''" "char_of (49::nat) = CHR ''1''" "char_of (50::nat) = CHR ''2''"
  "char_of (56::nat) = CHR ''8''"
  by code_simp+

lemma decimal_small [simp]:
  "decimal 0 = ''0''" "decimal (Suc 0) = ''1''" "decimal 1 = ''1''" "decimal 2 = ''2''" "decimal 8 = ''8''"
  by (simp_all add: decimal.simps digit_chars)

lemma lp64_wraps [simp]:
  "n < 2 ^ 64 \<Longrightarrow> id_type_wrap lp64 n = n"
  "n < 2 ^ 32 \<Longrightarrow> unsigned_wrap lp64 n = n"
  "n < 2 ^ 64 \<Longrightarrow> size_t_wrap lp64 n = n"
  by (simp_all add: id_type_wrap_def unsigned_wrap_def size_t_wrap_def lp64_def)

lemma header_fits_prior: "header_fits lp64 lp64 0 0 [(''prior'', [0::nat])]"
  by (simp add: header_fits_def lp64_def name_ok_def)




lemma edge_count_width_lp64: "edge_count_width lp64 = 20"
proof -
  have lo: "(16::real) / 5 < log 2 10"
  proof -
    have "(2::real) powr (16 / 5) < 10"
    proof -
      have "((2::real) powr (16 / 5)) ^ 5 = 2 powr 16"
        by (simp add: powr_power)
      also have "\<dots> = 65536" by (simp add: powr_numeral)
      also have "\<dots> < (10::real) ^ 5" by simp
      finally have "((2::real) powr (16 / 5)) ^ 5 < 10 ^ 5" .
      then show ?thesis by (rule power_less_imp_less_base) simp
    qed
    then show ?thesis by (simp only: less_log_iff [of 2 10 "16 / 5"]) 
  qed
  have hi: "log 2 (10::real) < 64 / 19"
  proof -
    have "(10::real) < 2 powr (64 / 19)"
    proof -
      have "((2::real) powr (64 / 19)) ^ 19 = 2 powr 64"
        by (simp add: powr_power)
      also have "\<dots> = 2 ^ 64" by (simp add: powr_numeral)
      finally have "(10::real) ^ 19 < (2 powr (64 / 19)) ^ 19" by simp
      then show ?thesis by (rule power_less_imp_less_base) simp
    qed
    then show ?thesis by (simp only: log_less_iff [of 2 10 "64 / 19"])
  qed
  have l: "0 < log 2 (10::real)" by simp
  have "19 < (64::real) / log 2 10"
    using hi l by (simp add: pos_less_divide_eq mult.commute)
  moreover have "(64::real) / log 2 10 < 20"
    using lo l by (simp add: pos_divide_less_eq)
  ultimately have "\<lceil>(64::real) / log 2 10\<rceil> = 20" by linarith
  then show ?thesis by (simp add: edge_count_width_def lp64_def)
qed






lemma overwrite_field:
  "length s \<le> w \<Longrightarrow> overwrite (length a) s (a @ replicate w c @ b) = a @ s @ replicate (w - length s) c @ b"
  by (simp add: overwrite_def)

lemma items_single: "items (fmupd k v fmempty) = [(k, v)]"
  by (simp add: items_def sorted_list_of_fmap_def sorted_list_of_fset.rep_eq)

lemma save_relabelled:
  "save_binary lp64 le_repr True relabelled_graph = Inr (True, relabelled_file)"
proof -
  have n: "no_of_nodes relabelled_graph = Suc (Suc 0)" by (simp add: no_of_nodes_def relabelled_graph_def)
  have wn: "write_nodes le_repr (nodes relabelled_graph) = Inr (le_bytes 8 7 @ le_bytes 8 5 @ le_bytes 8 3 @ le_bytes 8 6)"
    by (simp add: write_nodes_def relabelled_graph_def items_single node_bytes_def le_repr_def)
  have we: "write_edges lp64 le_repr relabelled_graph (Suc (Suc 0)) 0 ([], 0) = Inr (le_bytes 8 0 @ le_bytes 8 1 @ le_bytes 8 2, 1)"
    by (simp add: relabelled_graph_def le_repr_def)
  have n2: "no_of_nodes relabelled_graph = 2" by (simp add: no_of_nodes_def relabelled_graph_def)
  have h1: "header_text1 relabelled_graph = ''# Header'' @ [NL] @ ''node_count = 2'' @ [NL] @ ''edge_count = ''"
    by (simp add: header_text1_def n2)
  have h2: "header_text2 lp64 relabelled_graph =
      [NL] @ ''node_id_bytes = 8'' @ [NL] @ ''property_element_bytes = 8'' @ [NL]
      @ ''edge_weight_bytes = 8'' @ [NL] @ ''# Properties'' @ [NL] @ ''properties = (prior:1)'' @ [NL]
      @ ''# Data'' @ [NL]"
  proof -
    have "items (properties (nodes relabelled_graph ! 0)) = [(''prior'', [5])]"
      by (simp add: relabelled_graph_def items_single)
    then show ?thesis
      by (simp add: header_text2_def properties_text_def n2 lp64_def)
  qed
  have rf: "relabelled_file = (''# Header'' @ [NL] @ ''node_count = 2'' @ [NL] @ ''edge_count = '') @ ''1''
      @ replicate (20 - length ''1'') CHR '' '' @ ([NL] @ ''node_id_bytes = 8'' @ [NL] @ ''property_element_bytes = 8'' @ [NL]
      @ ''edge_weight_bytes = 8'' @ [NL] @ ''# Properties'' @ [NL] @ ''properties = (prior:1)'' @ [NL]
      @ ''# Data'' @ [NL]) @ (le_bytes 8 7 @ le_bytes 8 5 @ le_bytes 8 3 @ le_bytes 8 6)
      @ (le_bytes 8 0 @ le_bytes 8 1 @ le_bytes 8 2)"
  proof -
    have w: "sizeof_id_type lp64 = 8" "sizeof_property_type lp64 = 8" "sizeof_weight_type lp64 = 8"
      by (simp_all add: lp64_def)
    show ?thesis
      by (simp add: relabelled_file_def relabelled_data_def written_header_def entries_text_def
          schema_lines_def w edge_count_width_lp64 del: le_bytes.simps)
  qed
  have "save_binary lp64 le_repr True relabelled_graph =
      Inr (True, overwrite (length (header_text1 relabelled_graph)) ''1''
        (header_text1 relabelled_graph @ replicate 20 CHR '' '' @ header_text2 lp64 relabelled_graph
         @ (le_bytes 8 7 @ le_bytes 8 5 @ le_bytes 8 3 @ le_bytes 8 6)
         @ (le_bytes 8 0 @ le_bytes 8 1 @ le_bytes 8 2)))"
    unfolding save_binary_def n wn we by (simp add: edge_count_width_lp64 del: le_bytes.simps)
  also have "overwrite (length (header_text1 relabelled_graph)) ''1''
        (header_text1 relabelled_graph @ replicate 20 CHR '' '' @ header_text2 lp64 relabelled_graph
         @ (le_bytes 8 7 @ le_bytes 8 5 @ le_bytes 8 3 @ le_bytes 8 6)
         @ (le_bytes 8 0 @ le_bytes 8 1 @ le_bytes 8 2)) = relabelled_file"
    unfolding rf h1 h2 by (rule overwrite_field) simp
  finally show ?thesis .
qed

lemma le_nat_le_bytes: "le_nat (le_bytes k n) = n mod 256 ^ k"
proof (induction k arbitrary: n)
  case 0
  then show ?case by simp
next
  case (Suc k)
  have "le_nat (le_bytes (Suc k) n) = n mod 256 + 256 * (n div 256 mod 256 ^ k)"
    by (simp add: Suc.IH)
  also have "\<dots> = n mod (256 * 256 ^ k)"
    by (simp add: mod_mult2_eq)
  finally show ?case by simp
qed

lemma length_le_bytes [simp]: "length (le_bytes k n) = k"
  by (induction k arbitrary: n) simp_all

lemma stream_read_open:
  "length a = n \<Longrightarrow> stream_read (open_stream (a @ b)) n = (open_stream b, a)"
  by (simp add: stream_read_def open_stream_def good_def)

lemma header_relabelled:
  "parse_header lp64 ref_strings (open_stream relabelled_file) =
     Some (Inr (relabelled_header, open_stream relabelled_data))"
proof -
  have hf: "header_fits lp64 lp64 2 1 [(''prior'', [5::nat])]"
    by (simp add: header_fits_def lp64_def name_ok_def)
  have w: "sizeof_id_type lp64 = 8" "sizeof_property_type lp64 = 8" "sizeof_weight_type lp64 = 8"
    by (simp_all add: lp64_def)
  have rh: "read_header lp64 lp64 2 1 [(''prior'', [5::nat])] = relabelled_header"
    using w by (simp add: read_header_def loaded_schema_def trim_ref_def relabelled_header_def)
  show ?thesis
    unfolding relabelled_file_def rh [symmetric] by (rule parse_header_written [OF hf])
qed

lemma read_nodes_step:
  assumes "length idb = sizeof_id_type im" and "length pb = property_bytes" and "0 < total_elements"
    and "slice_properties (Header_properties h) (buffer_elements im rp total_elements (pb @ drop (length pb) buf)) 0 fmempty
           = Inr props"
  shows "read_nodes im rp h total_elements property_bytes (Suc k) i (open_stream (idb @ pb @ others)) buf ns =
     read_nodes im rp h total_elements property_bytes k (Suc i) (open_stream others)
       (pb @ drop (length pb) buf) (ns @ [\<lparr>Node_id = i, properties = props\<rparr>])"
proof -
  have a: "stream_read (open_stream (idb @ pb @ others)) (sizeof_id_type im) = (open_stream (pb @ others), idb)"
    by (rule stream_read_open [OF assms(1)])
  have b: "stream_read (open_stream (pb @ others)) property_bytes = (open_stream others, pb)"
    by (rule stream_read_open [OF assms(2)])
  show ?thesis
    using assms(3) by (simp only: read_nodes.simps a b prod.case assms(4) sum.case) simp
qed

lemma read_edges_step:
  assumes "length d = 2 * sizeof_id_type im + sizeof_weight_type im"
    and "get_EdgeInfo rp d = (source, target, weight)" and "source < length es"
  shows "read_edges im rp (Suc k) (open_stream (d @ others)) es =
     read_edges im rp k (open_stream others) (es[source := es ! source @ [\<lparr>Edge_node = target, Edge_weight = weight\<rparr>]])"
proof -
  have a: "stream_read (open_stream (d @ others)) (2 * sizeof_id_type im + sizeof_weight_type im) = (open_stream others, d)"
    by (rule stream_read_open [OF assms(1)])
  show ?thesis
    using assms(1,3) by (simp only: read_edges.simps a prod.case assms(2)) simp
qed

lemma parse_data_eq:
  assumes "node_count h = Some n" and "total_property_elements h = Some t" and "edge_count h = Some m"
    and "read_nodes im rp h t (size_t_wrap im (sizeof_property_type im * t)) n 0 stream
           (concat (replicate t (put_property rp 0))) [] = Inr (stream1, ns)"
    and "read_edges im rp m stream1 (replicate n []) = Inr (stream2, es)"
  shows "parse_data im rp stream h = Inr (ns, es)"
  using assms by (simp add: parse_data_def)

lemma buffer_one:
  assumes "length (put_property rp v) = sizeof_property_type im" and "get_property rp (put_property rp v) = v"
  shows "buffer_elements im rp (Suc 0) (put_property rp v) = [v]"
  using assms by (simp add: buffer_elements_def)

lemma data_relabelled:
  "parse_data lp64 le_repr (open_stream relabelled_data) relabelled_header
   = Inr (nodes reloaded_graph, edges reloaded_graph)"
proof -
  define h where "h = relabelled_header"
  define i0 i1 e0 where "i0 = le_bytes 8 7" and "i1 = le_bytes 8 3"
    and "e0 = le_bytes 8 0 @ le_bytes 8 1 @ le_bytes 8 2"
  define p0 p1 pz where "p0 = put_property le_repr 5" and "p1 = put_property le_repr 6"
    and "pz = put_property le_repr 0"
  have pp: "le_bytes 8 5 = p0" "le_bytes 8 6 = p1" by (simp_all add: p0_def p1_def le_repr_def)
  have li: "length i0 = sizeof_id_type lp64" "length i1 = sizeof_id_type lp64"
    by (simp_all add: i0_def i1_def lp64_def)
  have lp: "length p0 = 8" "length p1 = 8" "length pz = 8"
    by (simp_all add: p0_def p1_def pz_def le_repr_def)
  have sp: "sizeof_property_type lp64 = 8" by (simp add: lp64_def)
  have b0: "buffer_elements lp64 le_repr (Suc 0) p0 = [5]" unfolding p0_def
    by (rule buffer_one) (simp_all add: le_repr_def lp64_def le_nat_le_bytes)
  have b1: "buffer_elements lp64 le_repr (Suc 0) p1 = [6]" unfolding p1_def
    by (rule buffer_one) (simp_all add: le_repr_def lp64_def le_nat_le_bytes)
  have hp: "Header_properties h = [(''prior'', Suc 0)]" by (simp add: h_def relabelled_header_def)
  have s0: "slice_properties (Header_properties h) (buffer_elements lp64 le_repr (Suc 0) (p0 @ drop (length p0) pz)) 0 fmempty
      = Inr (fmupd ''prior'' [5] fmempty)"
    by (simp add: lp b0 hp)
  have s1: "slice_properties (Header_properties h) (buffer_elements lp64 le_repr (Suc 0) (p1 @ drop (length p1) (p0 @ drop (length p0) pz))) 0 fmempty
      = Inr (fmupd ''prior'' [6] fmempty)"
    by (simp add: lp b1 hp)
  have rn: "read_nodes lp64 le_repr h (Suc 0) 8 (Suc (Suc 0)) 0 (open_stream (i0 @ p0 @ i1 @ p1 @ e0)) pz [] =
      Inr (open_stream e0, nodes reloaded_graph)"
  proof -
    have "read_nodes lp64 le_repr h (Suc 0) 8 (Suc (Suc 0)) 0 (open_stream (i0 @ p0 @ (i1 @ p1 @ e0))) pz [] =
        read_nodes lp64 le_repr h (Suc 0) 8 (Suc 0) (Suc 0) (open_stream (i1 @ p1 @ e0))
          (p0 @ drop (length p0) pz) ([] @ [\<lparr>Node_id = 0, properties = fmupd ''prior'' [5] fmempty\<rparr>])"
      by (rule read_nodes_step [OF li(1) lp(1) _ s0]) simp
    also have "\<dots> = read_nodes lp64 le_repr h (Suc 0) 8 0 (Suc (Suc 0)) (open_stream e0)
          (p1 @ drop (length p1) (p0 @ drop (length p0) pz))
          (([] @ [\<lparr>Node_id = 0, properties = fmupd ''prior'' [5] fmempty\<rparr>])
            @ [\<lparr>Node_id = Suc 0, properties = fmupd ''prior'' [6] fmempty\<rparr>])"
      by (rule read_nodes_step [OF li(2) lp(2) _ s1]) simp
    also have "\<dots> = Inr (open_stream e0, nodes reloaded_graph)"
      by (simp add: reloaded_graph_def)
    finally show ?thesis by simp
  qed
  have ge: "get_EdgeInfo le_repr e0 = (0, Suc 0, 2)"
    by (simp add: le_repr_def e0_def le_nat_le_bytes del: le_bytes.simps)
  have le0: "length e0 = 2 * sizeof_id_type lp64 + sizeof_weight_type lp64"
    by (simp add: e0_def lp64_def)
  have re: "read_edges lp64 le_repr (Suc 0) (open_stream e0) (replicate (Suc (Suc 0)) []) = Inr (open_stream [], edges reloaded_graph)"
  proof -
    have "read_edges lp64 le_repr (Suc 0) (open_stream (e0 @ [])) (replicate (Suc (Suc 0)) []) =
       read_edges lp64 le_repr 0 (open_stream [])
         ((replicate (Suc (Suc 0)) [])[0 := replicate (Suc (Suc 0)) [] ! 0 @ [\<lparr>Edge_node = Suc 0, Edge_weight = 2\<rparr>]])"
      by (rule read_edges_step [OF le0 ge]) simp
    then show ?thesis by (simp add: reloaded_graph_def)
  qed
  have "parse_data lp64 le_repr (open_stream (i0 @ p0 @ i1 @ p1 @ e0)) h = Inr (nodes reloaded_graph, edges reloaded_graph)"
  proof (rule parse_data_eq [where n = "Suc (Suc 0)" and t = "Suc 0" and m = "Suc 0"])
    show "node_count h = Some (Suc (Suc 0))" "total_property_elements h = Some (Suc 0)" "edge_count h = Some (Suc 0)"
      by (simp_all add: h_def relabelled_header_def)
    show "read_nodes lp64 le_repr h (Suc 0) (size_t_wrap lp64 (sizeof_property_type lp64 * Suc 0)) (Suc (Suc 0)) 0
        (open_stream (i0 @ p0 @ i1 @ p1 @ e0)) (concat (replicate (Suc 0) (put_property le_repr 0))) []
        = Inr (open_stream e0, nodes reloaded_graph)"
      using rn by (simp add: sp pz_def)
    show "read_edges lp64 le_repr (Suc 0) (open_stream e0) (replicate (Suc (Suc 0)) []) = Inr (open_stream [], edges reloaded_graph)"
      by (rule re)
  qed
  then show ?thesis
    unfolding h_def i0_def i1_def e0_def pp [symmetric] relabelled_data_def by (simp only: append_assoc)
qed

lemma read_nodes_ids:
  "read_nodes im rp header total_elements property_bytes k i stream buf ns = Inr (stream', ns')
   \<Longrightarrow> map Node_id ns = [0 ..< i] \<Longrightarrow> map Node_id ns' = [0 ..< i + k]"
proof (induction k arbitrary: i stream buf ns)
  case 0
  then show ?case by simp
next
  case (Suc k)
  obtain stream1 id_data where r1: "stream_read stream (sizeof_id_type im) = (stream1, id_data)"
    by fastforce
  obtain stream2 data where r2: "stream_read stream1 property_bytes = (stream2, data)"
    by fastforce
  from Suc.prems(1) r1 r2 obtain props where
    rec: "read_nodes im rp header total_elements property_bytes k (Suc i) stream2
            (data @ drop (length data) buf) (ns @ [\<lparr>Node_id = i, properties = props\<rparr>]) = Inr (stream', ns')"
    by (auto split: sum.splits if_splits)
  have "map Node_id (ns @ [\<lparr>Node_id = i, properties = props\<rparr>]) = [0 ..< Suc i]"
    using Suc.prems(2) by simp
  from Suc.IH [OF rec this] show ?case by simp
qed

lemma parse_data_ids:
  assumes "parse_data im rp stream header = Inr (ns, es)"
  shows "map Node_id ns = [0 ..< length ns]"
proof -
  from assms obtain n total_elements stream1 where
    "read_nodes im rp header total_elements (size_t_wrap im (sizeof_property_type im * total_elements))
       n 0 stream (concat (replicate total_elements (put_property rp 0))) [] = Inr (stream1, ns)"
    by (auto simp: parse_data_def split: option.splits sum.splits)
  from read_nodes_ids [OF this] have m: "map Node_id ns = [0 ..< n]" by simp
  then have "length ns = n" by (metis length_map length_upt minus_nat.diff_0)
  with m show ?thesis by simp
qed

lemma slice_properties_error:
  "slice_properties infos vs start props = Inl e \<Longrightarrow> e = Undefined"
  by (induction infos vs start props rule: slice_properties.induct) (auto split: if_splits)

lemma read_nodes_error:
  "read_nodes im rp header total_elements property_bytes k i stream buf ns = Inl e \<Longrightarrow> e = Undefined"
proof (induction k arbitrary: i stream buf ns)
  case 0
  then show ?case by simp
next
  case (Suc k)
  then show ?case
    by (auto split: prod.splits sum.splits if_splits dest: slice_properties_error)
qed

lemma read_edges_error:
  "read_edges im rp k stream es = Inl e \<Longrightarrow> e = Undefined"
proof (induction k arbitrary: stream es)
  case 0
  then show ?case by simp
next
  case (Suc k)
  then show ?case
    by (auto split: prod.splits if_splits)
qed

lemma parse_data_error:
  "parse_data im rp stream header = Inl e \<Longrightarrow> e = Undefined"
  by (auto simp: parse_data_def split: option.splits sum.splits prod.splits
      dest: read_nodes_error read_edges_error)

lemma widths_relabelled:
  "node_id_bytes relabelled_header = Some (sizeof_id_type lp64)"
  "property_element_bytes relabelled_header = Some (sizeof_property_type lp64)"
  "edge_weight_bytes relabelled_header = Some (sizeof_weight_type lp64)"
  by (simp_all add: relabelled_header_def lp64_def)

lemma load_relabelled:
  "load_binary lp64 ref_strings le_repr (Some relabelled_file) = Some (Inr reloaded_graph)"
proof -
  have g: "\<lparr>nodes = nodes reloaded_graph, edges = edges reloaded_graph\<rparr> = reloaded_graph" by simp
  show ?thesis
    by (simp add: load_binary_def header_relabelled check_and_load_def data_relabelled widths_relabelled g)
qed








lemma header_loop:
  "parse_header lp64 ref_strings (open_stream loop_file) =
     Some (Inr (read_header lp64 lp64 1 1 ([] :: (string \<times> nat Property) list), open_stream loop_data))"
proof -
  have hf: "header_fits lp64 lp64 1 1 ([] :: (string \<times> nat Property) list)"
    by (simp add: header_fits_def lp64_def)
  show ?thesis
    unfolding loop_file_def by (rule parse_header_written [OF hf])
qed

lemma header_relabelled_ids32:
  "parse_header ids32 ref_strings (open_stream relabelled_file) =
     Some (Inr (relabelled_header, open_stream relabelled_data))"
proof -
  have hf: "header_fits lp64 ids32 2 1 [(''prior'', [5::nat])]"
    by (simp add: header_fits_def lp64_def ids32_def name_ok_def)
  have w: "sizeof_id_type lp64 = 8" "sizeof_property_type lp64 = 8" "sizeof_weight_type lp64 = 8"
    by (simp_all add: lp64_def)
  have rh: "read_header lp64 ids32 2 1 [(''prior'', [5::nat])] = relabelled_header"
    using w by (simp add: read_header_def loaded_schema_def trim_ref_def relabelled_header_def
        id_type_wrap_def unsigned_wrap_def ids32_def)
  show ?thesis
    unfolding relabelled_file_def rh [symmetric] by (rule parse_header_written [OF hf])
qed

lemma widths_relabelled_plain:
  "node_id_bytes relabelled_header = Some 8"
  "property_element_bytes relabelled_header = Some 8"
  "edge_weight_bytes relabelled_header = Some 8"
  by (simp_all add: relabelled_header_def)

section \<open>The reader: truncated headers, width checks, node ids\<close>

text \<open>
  Claim C4. The code does not do what the claim says. On the file \<open>truncated_file\<close>, a header
  with \<^verbatim>\<open>node_count = 0\<close>, \<^verbatim>\<open>edge_count = 0\<close> and one property that ends without a line
  \<^verbatim>\<open># Data\<close>, the loop of \<^verbatim>\<open>parse_header\<close> ends because the stream is no longer good,
  \<^verbatim>\<open>parse_header\<close> returns the header read so far, and \<^verbatim>\<open>load_binary\<close> passes the width checks
  and returns the empty graph instead of failing with a header parse error.
\<close>

theorem truncated_header_accepted:
  "parse_header lp64 ref_strings (open_stream truncated_file)
     = Some (Inr (\<lparr>node_count = Some 0, edge_count = Some 0, node_id_bytes = Some 8,
                    property_element_bytes = Some 8, total_property_elements = Some 1,
                    edge_weight_bytes = Some 8, Header_properties = [(''prior'', 1)]\<rparr>,
                  \<lparr>rest = [], eofbit = True, failbit = True\<rparr>))
   \<and> load_binary lp64 ref_strings le_repr (Some truncated_file) = Some (Inr \<lparr>nodes = [], edges = []\<rparr>)"
proof -
  have tf: "truncated_file = ''# Header'' @ [NL] @ entries_text lp64 0 0 @ schema_lines [(''prior'', [0::nat])]"
    by (simp add: truncated_file_def schema_lines_def)
  have w: "sizeof_id_type lp64 = 8" "sizeof_property_type lp64 = 8" "sizeof_weight_type lp64 = 8"
    by (simp_all add: lp64_def)
  have rh: "read_header lp64 lp64 0 0 [(''prior'', [0::nat])] =
     \<lparr>node_count = Some 0, edge_count = Some 0, node_id_bytes = Some 8, property_element_bytes = Some 8,
      total_property_elements = Some 1, edge_weight_bytes = Some 8,
      Header_properties = [(''prior'', 1)]\<rparr>"
    using w by (simp add: read_header_def loaded_schema_def trim_ref_def)
  have "parse_header lp64 ref_strings (open_stream truncated_file) =
      Some (Inr (read_header lp64 lp64 0 0 [(''prior'', [0::nat])], \<lparr>rest = [], eofbit = True, failbit = True\<rparr>))"
    unfolding tf by (rule parse_header_truncated [OF header_fits_prior])
  then have ph: "parse_header lp64 ref_strings (open_stream truncated_file) =
      Some (Inr (\<lparr>node_count = Some 0, edge_count = Some 0, node_id_bytes = Some 8,
                    property_element_bytes = Some 8, total_property_elements = Some 1,
                    edge_weight_bytes = Some 8, Header_properties = [(''prior'', 1)]\<rparr>,
                  \<lparr>rest = [], eofbit = True, failbit = True\<rparr>))"
    by (simp only: rh)
  have "load_binary lp64 ref_strings le_repr (Some truncated_file) = Some (Inr \<lparr>nodes = [], edges = []\<rparr>)"
    by (simp add: load_binary_def ph check_and_load_def parse_data_def w)
  with ph show ?thesis by (rule conjI)
qed

text \<open>
  Claim C9. Every graph that \<^verbatim>\<open>load_binary\<close> returns satisfies I1: the node at position \<open>i\<close>
  has id \<open>i\<close>, whatever the file holds, for every implementation, every \<^verbatim>\<open>split\<close> and \<^verbatim>\<open>trim\<close>
  and every representation of the values. The id read from the file is not used.
\<close>

theorem loaded_ids:
  assumes "load_binary im sf rp contents = Some (Inr g)"
  shows "\<forall>i < no_of_nodes g. Node_id (nodes g ! i) = i"
proof -
  from assms obtain header fl where "check_and_load im rp header fl = Inr g"
    by (auto simp: load_binary_def split: option.splits sum.splits)
  then obtain ns es where pd: "parse_data im rp fl header = Inr (ns, es)"
    and g: "g = \<lparr>nodes = ns, edges = es\<rparr>"
    by (auto simp: check_and_load_def split: option.splits sum.splits if_splits)
  from parse_data_ids [OF pd] have m: "map Node_id ns = [0 ..< length ns]" .
  show ?thesis
  proof (intro allI impI)
    fix i assume "i < no_of_nodes g"
    with g have i: "i < length ns" by (simp add: no_of_nodes_def)
    then have "Node_id (ns ! i) = map Node_id ns ! i" by simp
    also have "\<dots> = i" using i by (simp add: m)
    finally show "Node_id (nodes g ! i) = i" using g by simp
  qed
qed

text \<open>
  The file that \<^verbatim>\<open>save_binary\<close> writes for a graph whose nodes have the ids 7 and 3 is loaded
  as a graph whose nodes have the ids 0 and 1.
\<close>

theorem loaded_ids_witness:
  "save_binary lp64 le_repr True relabelled_graph = Inr (True, relabelled_file)
   \<and> map Node_id (nodes relabelled_graph) = [7, 3]
   \<and> load_binary lp64 ref_strings le_repr (Some relabelled_file) = Some (Inr reloaded_graph)
   \<and> no_of_nodes reloaded_graph = 2
   \<and> Node_id (nodes reloaded_graph ! 0) = 0 \<and> Node_id (nodes reloaded_graph ! 1) = 1"
proof -
  have n: "no_of_nodes reloaded_graph = 2" by (simp add: no_of_nodes_def reloaded_graph_def)
  have ids: "map Node_id (nodes relabelled_graph) = [7, 3]" by (simp add: relabelled_graph_def)
  note T = loaded_ids [OF load_relabelled, rule_format]
  have "Node_id (nodes reloaded_graph ! 0) = 0" by (rule T) (simp add: n)
  moreover have "Node_id (nodes reloaded_graph ! 1) = 1" by (rule T) (simp add: n)
  ultimately show ?thesis using save_relabelled load_relabelled n ids by (intro conjI)
qed

text \<open>
  Claim C5. When \<^verbatim>\<open>parse_header\<close> has returned a header in which \<^verbatim>\<open>node_id_bytes\<close>,
  \<^verbatim>\<open>property_element_bytes\<close> and \<^verbatim>\<open>edge_weight_bytes\<close> have been read as \<open>a\<close>, \<open>b\<close> and \<open>w\<close>,
  \<^verbatim>\<open>load_binary\<close> fails with the schema error if and only if \<open>a\<close> differs from the size of
  \<^verbatim>\<open>id_type\<close>, or \<open>b\<close> differs from the size of \<^verbatim>\<open>property_type\<close>, or \<open>w\<close> is greater than the
  size of \<^verbatim>\<open>weight_type\<close>; when the three checks pass, \<^verbatim>\<open>load_binary\<close> goes on to the data
  section: its result is that of \<^verbatim>\<open>parse_data\<close> on the rest of the stream, the graph of the
  nodes and edges read or the failure of the read.
\<close>

theorem width_checks:
  assumes "parse_header im sf (open_stream c) = Some (Inr (header, file))"
    and "node_id_bytes header = Some a"
    and "property_element_bytes header = Some b"
    and "edge_weight_bytes header = Some w"
  shows "(load_binary im sf rp (Some c) = Some (Inl SchemaError)
          \<longleftrightarrow> a \<noteq> sizeof_id_type im \<or> b \<noteq> sizeof_property_type im \<or> sizeof_weight_type im < w)
     \<and> (a = sizeof_id_type im \<and> b = sizeof_property_type im \<and> w \<le> sizeof_weight_type im
          \<longrightarrow> load_binary im sf rp (Some c)
              = Some (case parse_data im rp file header of
                        Inl e \<Rightarrow> Inl e
                      | Inr (ns, es) \<Rightarrow> Inr \<lparr>nodes = ns, edges = es\<rparr>))"
proof -
  have l: "load_binary im sf rp (Some c) = Some (check_and_load im rp header file)"
    using assms(1) by (simp add: load_binary_def)
  have ok: "check_and_load im rp header file
      = (case parse_data im rp file header of Inl e \<Rightarrow> Inl e | Inr (ns, es) \<Rightarrow> Inr \<lparr>nodes = ns, edges = es\<rparr>)"
    if "a = sizeof_id_type im" "b = sizeof_property_type im" "w \<le> sizeof_weight_type im"
    using that assms(2-4) by (simp add: check_and_load_def)
  have bad: "check_and_load im rp header file = Inl SchemaError"
    if "a \<noteq> sizeof_id_type im \<or> b \<noteq> sizeof_property_type im \<or> sizeof_weight_type im < w"
    using that assms(2-4) by (auto simp: check_and_load_def)
  have "check_and_load im rp header file \<noteq> Inl SchemaError"
    if "a = sizeof_id_type im" "b = sizeof_property_type im" "w \<le> sizeof_weight_type im"
    using ok [OF that] parse_data_error [of im rp "file" header]
    by (auto split: sum.splits)
  with bad have "check_and_load im rp header file = Inl SchemaError
          \<longleftrightarrow> a \<noteq> sizeof_id_type im \<or> b \<noteq> sizeof_property_type im \<or> sizeof_weight_type im < w"
    by (meson not_le)
  with ok show ?thesis by (simp add: l)
qed

text \<open>
  The file written for \<open>relabelled_graph\<close> on an LP64 machine: there the three checks pass and
  the data section is read; on a machine with 32-bit ids, \<^verbatim>\<open>load_binary\<close> fails with the schema
  error.
\<close>

theorem width_checks_witness:
  "load_binary lp64 ref_strings le_repr (Some relabelled_file) = Some (Inr reloaded_graph)
   \<and> load_binary ids32 ref_strings (le_repr_of ids32) (Some relabelled_file) = Some (Inl SchemaError)"
proof -
  have g: "\<lparr>nodes = nodes reloaded_graph, edges = edges reloaded_graph\<rparr> = reloaded_graph" by simp
  note T = width_checks [OF header_relabelled widths_relabelled, of le_repr]
  from T [THEN conjunct2] have a: "load_binary lp64 ref_strings le_repr (Some relabelled_file) = Some (Inr reloaded_graph)"
    by (simp add: data_relabelled g)
  note U = width_checks [OF header_relabelled_ids32 widths_relabelled_plain, of "le_repr_of ids32"]
  from U [THEN conjunct1] have "load_binary ids32 ref_strings (le_repr_of ids32) (Some relabelled_file) = Some (Inl SchemaError)"
    by (simp add: ids32_def)
  with a show ?thesis by (rule conjI)
qed

section \<open>The writer: the edge count\<close>




section \<open>Saving and loading a graph without properties\<close>

text \<open>
  Claim C1. The code does not do what the claim says for a graph whose nodes have no
  properties. \<open>loop_graph\<close> satisfies I1 to I3; \<^verbatim>\<open>save_binary\<close> writes \<open>loop_file\<close> for it, with
  no \<^verbatim>\<open># Properties\<close> section; \<^verbatim>\<open>parse_header\<close> then returns a header whose
  \<^verbatim>\<open>total_property_elements\<close> has never been assigned, and \<^verbatim>\<open>parse_data\<close> reads it: the
  behaviour of \<^verbatim>\<open>load_binary\<close> is undefined, where the claim promises a graph equal to the
  one saved.
\<close>

theorem schemaless_round_trip:
  "save_binary lp64 le_repr True loop_graph = Inr (True, loop_file)
   \<and> parse_header lp64 ref_strings (open_stream loop_file) =
       Some (Inr (\<lparr>node_count = Some 1, edge_count = Some 1, node_id_bytes = Some 8,
                    property_element_bytes = Some 8, total_property_elements = None,
                    edge_weight_bytes = Some 8, Header_properties = []\<rparr>,
                  open_stream loop_data))
   \<and> load_binary lp64 ref_strings le_repr (Some loop_file) = Some (Inl Undefined)"
proof -
  have w: "sizeof_id_type lp64 = 8" "sizeof_property_type lp64 = 8" "sizeof_weight_type lp64 = 8"
    by (simp_all add: lp64_def)
  have rh: "read_header lp64 lp64 1 1 ([] :: (string \<times> nat Property) list) =
      \<lparr>node_count = Some 1, edge_count = Some 1, node_id_bytes = Some 8,
                    property_element_bytes = Some 8, total_property_elements = None,
                    edge_weight_bytes = Some 8, Header_properties = []\<rparr>"
    using w by (simp add: read_header_def loaded_schema_def)
  have n: "no_of_nodes loop_graph = 1" by (simp add: no_of_nodes_def loop_graph_def)
  have wn: "write_nodes le_repr (nodes loop_graph) = Inr (le_bytes 8 0)"
    by (simp add: write_nodes_def loop_graph_def node_bytes_def le_repr_def items_def
        sorted_list_of_fmap_def sorted_list_of_fset.rep_eq del: le_bytes.simps)
  have we: "write_edges lp64 le_repr loop_graph (Suc 0) 0 ([], 0) = Inr (le_bytes 8 0 @ le_bytes 8 0 @ le_bytes 8 2, 1)"
    by (simp add: loop_graph_def le_repr_def del: le_bytes.simps)
  have h1: "header_text1 loop_graph = ''# Header'' @ [NL] @ ''node_count = 1'' @ [NL] @ ''edge_count = ''"
    by (simp add: header_text1_def n)
  have h2: "header_text2 lp64 loop_graph =
      [NL] @ ''node_id_bytes = 8'' @ [NL] @ ''property_element_bytes = 8'' @ [NL]
      @ ''edge_weight_bytes = 8'' @ [NL] @ ''# Data'' @ [NL]"
  proof -
    have "items (properties (nodes loop_graph ! 0)) = []"
      by (simp add: loop_graph_def items_def sorted_list_of_fmap_def sorted_list_of_fset.rep_eq)
    then show ?thesis
      by (simp add: header_text2_def properties_text_def n w)
  qed
  have lf: "loop_file = (''# Header'' @ [NL] @ ''node_count = 1'' @ [NL] @ ''edge_count = '') @ ''1''
      @ replicate (20 - length ''1'') CHR '' '' @ ([NL] @ ''node_id_bytes = 8'' @ [NL] @ ''property_element_bytes = 8'' @ [NL]
      @ ''edge_weight_bytes = 8'' @ [NL] @ ''# Data'' @ [NL]) @ le_bytes 8 0
      @ (le_bytes 8 0 @ le_bytes 8 0 @ le_bytes 8 2)"
    by (simp add: loop_file_def loop_data_def written_header_def entries_text_def schema_lines_def w
        edge_count_width_lp64 del: le_bytes.simps)
  have "save_binary lp64 le_repr True loop_graph =
      Inr (True, overwrite (length (header_text1 loop_graph)) ''1''
        (header_text1 loop_graph @ replicate 20 CHR '' '' @ header_text2 lp64 loop_graph
         @ le_bytes 8 0 @ (le_bytes 8 0 @ le_bytes 8 0 @ le_bytes 8 2)))"
    unfolding save_binary_def n One_nat_def wn we by (simp add: edge_count_width_lp64 del: le_bytes.simps)
  also have "overwrite (length (header_text1 loop_graph)) ''1''
        (header_text1 loop_graph @ replicate 20 CHR '' '' @ header_text2 lp64 loop_graph
         @ le_bytes 8 0 @ (le_bytes 8 0 @ le_bytes 8 0 @ le_bytes 8 2)) = loop_file"
    unfolding lf h1 h2 by (rule overwrite_field) simp
  finally have sv: "save_binary lp64 le_repr True loop_graph = Inr (True, loop_file)" .
  have ph: "parse_header lp64 ref_strings (open_stream loop_file) =
       Some (Inr (\<lparr>node_count = Some 1, edge_count = Some 1, node_id_bytes = Some 8,
                    property_element_bytes = Some 8, total_property_elements = None,
                    edge_weight_bytes = Some 8, Header_properties = []\<rparr>,
                  open_stream loop_data))"
    using header_loop by (simp only: rh)
  have "load_binary lp64 ref_strings le_repr (Some loop_file) = Some (Inl Undefined)"
    by (simp add: load_binary_def ph check_and_load_def parse_data_def w)
  with sv ph show ?thesis by (intro conjI)
qed

end
